theory Spec2Isabelle
  imports Main "HOL-Library.Word"
begin

section \<open>Lock-free stacks of the repository: hazard pointers and split reference counts\<close>

text \<open>
  The two classes \<^verbatim>\<open>LockFreeStack\<close> of the repository are embedded as two small-step
  machines. Every thread has a program counter that names the source line it is about
  to execute, and one step of a thread executes one access to shared memory together
  with the thread-private statements around it. Atomics are sequentially consistent in
  the model; the memory-order arguments of the source are not represented.

  Names follow the source. Because both classes use the same names, the hazard-pointer
  variant (\<^verbatim>\<open>lock_free_stack_hazard_pointer.hpp\<close>) carries the suffix \<open>_hp\<close> and the
  split-reference-count variant the suffix \<open>_rc\<close>. A trailing underscore of a member
  name (\<^verbatim>\<open>head_\<close>) is dropped.
\<close>

subsection \<open>Memory, threads, results\<close>

type_synonym addr = nat
type_synonym tid = nat

text \<open>
  The free store. \<^verbatim>\<open>new\<close> hands out a fresh address and throws \<^verbatim>\<open>std::bad_alloc\<close>
  when no cell is left; \<^verbatim>\<open>delete\<close> gives the cell back and is logged, so that a second
  \<^verbatim>\<open>delete\<close> of the same address is visible in \<open>freed\<close>. Addresses are not reused.
\<close>

record heap =
  next_addr :: addr
  capacity :: nat
  freed :: "addr list"

definition operator_new :: "heap \<Rightarrow> (addr \<times> heap) option" where
  "operator_new h =
     (if capacity h = 0 then None
      else Some (next_addr h, h\<lparr>next_addr := Suc (next_addr h), capacity := capacity h - 1\<rparr>))"

definition operator_delete :: "addr \<Rightarrow> heap \<Rightarrow> heap" where
  "operator_delete a h = h\<lparr>capacity := Suc (capacity h), freed := freed h @ [a]\<rparr>"

datatype exn = bad_alloc | runtime_error string

text \<open>
  What a call gave back to its caller: \<^verbatim>\<open>push\<close> returns nothing, \<^verbatim>\<open>pop\<close> returns a
  \<^verbatim>\<open>shared_ptr<T>\<close> (\<open>None\<close> is the null pointer), and either may leave by an exception.
\<close>

datatype 'a outcome = Returned_void | Returned "'a option" | Threw exn

datatype 'a op = Push 'a | Pop | Destroy | ThreadExit

datatype 'a event = Call tid "'a op" | Step tid

text \<open>
  \<^verbatim>\<open>compare_exchange_strong(expected, desired)\<close> on an atomic holding \<open>cur\<close>: success,
  the new content of the atomic, and the new content of \<open>expected\<close>. The weak form is
  modelled by the same function (a spurious failure repeats the loop with the same
  values).
\<close>

definition compare_exchange :: "'v \<Rightarrow> 'v \<Rightarrow> 'v \<Rightarrow> bool \<times> 'v \<times> 'v" where
  "compare_exchange cur expected desired =
     (if cur = expected then (True, desired, expected) else (False, cur, cur))"

subsection \<open>Hazard pointers (lock\_free\_stack\_hazard\_pointer.hpp, lines 9--61)\<close>

definition MaxSize :: nat where
  "MaxSize = 100"

text \<open>\<open>id_hp = None\<close> is the default-constructed \<^verbatim>\<open>std::thread::id\<close>, \<open>p_hp = None\<close> is \<^verbatim>\<open>nullptr\<close>.\<close>

record HazardPointer =
  id_hp :: "tid option"
  p_hp :: "addr option"

text \<open>The static array \<^verbatim>\<open>HazardPointers[MaxSize]\<close>, zero-initialised.\<close>

definition HazardPointers_init :: "HazardPointer list" where
  "HazardPointers_init = replicate MaxSize \<lparr>id_hp = None, p_hp = None\<rparr>"

text \<open>
  The constructor of \<^verbatim>\<open>HazardPointerHelper\<close> (lines 20--32): the \<^verbatim>\<open>for\<close> loop takes the
  first slot whose id is the default id and gives its index; when the loop ends without
  one, the constructor throws.
\<close>

primrec claim_slot :: "tid \<Rightarrow> HazardPointer list \<Rightarrow> (nat \<times> HazardPointer list) option" where
  "claim_slot me [] = None"
| "claim_slot me (x # xs) =
     (if id_hp x = None then Some (0, x\<lparr>id_hp := Some me\<rparr> # xs)
      else (case claim_slot me xs of
              None \<Rightarrow> None
            | Some (i, ys) \<Rightarrow> Some (Suc i, x # ys)))"

definition HazardPointerHelper :: "tid \<Rightarrow> HazardPointer list \<Rightarrow> exn + nat \<times> HazardPointer list" where
  "HazardPointerHelper me hps =
     (case claim_slot me hps of
        None \<Rightarrow> Inl (runtime_error ''No hazard pointers available'')
      | Some r \<Rightarrow> Inr r)"

text \<open>\<^verbatim>\<open>is_existing\<close> (lines 54--61).\<close>

primrec is_existing :: "addr \<Rightarrow> HazardPointer list \<Rightarrow> bool" where
  "is_existing a [] = False"
| "is_existing a (x # xs) = (if p_hp x = Some a then True else is_existing a xs)"

subsection \<open>The hazard-pointer stack (lines 63--142)\<close>

record 'a Node_hp =
  v_hp :: "'a option"
  next_hp :: "addr option"

text \<open>
  \<^verbatim>\<open>DataToDelete\<close> (lines 105--116). Its constructor is a template: \<open>OfNode\<close> is the
  instance for a \<^verbatim>\<open>Node*\<close> (line 89) and \<open>OfEntry\<close> the instance for a
  \<^verbatim>\<open>DataToDelete*\<close> (line 132); the deleter deletes an object of that type. \<open>self\<close> is
  the address of the entry itself. The member \<^verbatim>\<open>next\<close> is the list structure of
  \<open>to_delete_list\<close>.
\<close>

datatype DataToDelete =
    OfNode (self: addr) addr
  | OfEntry (self: addr) DataToDelete

text \<open>The member \<^verbatim>\<open>void* data\<close>.\<close>

primrec data :: "DataToDelete \<Rightarrow> addr" where
  "data (OfNode a n) = n"
| "data (OfEntry a e) = self e"

datatype pc_hp =
    Idle_hp
  | push_67 | push_68 | push_69
  | pop_74 | pop_75 | pop_80 | pop_81 | pop_83 | pop_84 | pop_87 | pop_93
  | exit_35 | exit_36
  | UB_hp

text \<open>
  The locals of a thread: the argument of \<^verbatim>\<open>push\<close>, the slot of its thread-local
  \<^verbatim>\<open>HazardPointerHelper\<close> (an index into the array, \<open>None\<close> while the helper is not
  constructed), the locals \<^verbatim>\<open>t\<close>, \<^verbatim>\<open>t2\<close> and \<^verbatim>\<open>res\<close>, and what its calls returned so far.
\<close>

record 'a thread_hp =
  pc_hp :: pc_hp
  arg_hp :: "'a option"
  hazard_pointer :: "nat option"
  t_hp :: "addr option"
  t2_hp :: "addr option"
  res_hp :: "'a option"
  outcomes_hp :: "'a outcome list"

text \<open>
  The shared state: the static array, the members \<^verbatim>\<open>head_\<close> and \<^verbatim>\<open>to_delete_list_\<close> of
  the one stack object, the live nodes and the free store. (The member \<^verbatim>\<open>pop_cnt_\<close> is
  never read or written by the class and is left out.)
\<close>

record 'a state_hp =
  HazardPointers :: "HazardPointer list"
  head_hp :: "addr option"
  to_delete_list :: "DataToDelete list"
  nodes_hp :: "addr \<rightharpoonup> 'a Node_hp"
  heap_hp :: heap
  threads_hp :: "tid \<Rightarrow> 'a thread_hp"

definition thread_init_hp :: "'a thread_hp" where
  "thread_init_hp =
     \<lparr>pc_hp = Idle_hp, arg_hp = None, hazard_pointer = None, t_hp = None, t2_hp = None,
      res_hp = None, outcomes_hp = []\<rparr>"

definition init_hp :: "nat \<Rightarrow> 'a state_hp" where
  "init_hp cells =
     \<lparr>HazardPointers = HazardPointers_init, head_hp = None, to_delete_list = [],
      nodes_hp = Map.empty,
      heap_hp = \<lparr>next_addr = 0, capacity = cells, freed = []\<rparr>,
      threads_hp = (\<lambda>i. thread_init_hp)\<rparr>"

text \<open>\<^verbatim>\<open>delete t\<close> for a \<^verbatim>\<open>Node* t\<close>.\<close>

definition delete_Node_hp :: "addr \<Rightarrow> 'a state_hp \<Rightarrow> 'a state_hp" where
  "delete_Node_hp a s =
     s\<lparr>nodes_hp := (nodes_hp s)(a := None), heap_hp := operator_delete a (heap_hp s)\<rparr>"

text \<open>
  \<^verbatim>\<open>delete cur\<close> for a \<^verbatim>\<open>DataToDelete* cur\<close>: the destructor (line 111) runs the deleter
  on \<^verbatim>\<open>data\<close>, then the entry's own cell is released.
\<close>

primrec delete_DataToDelete :: "DataToDelete \<Rightarrow> 'a state_hp \<Rightarrow> 'a state_hp" where
  "delete_DataToDelete (OfNode a n) s =
     (let s' = delete_Node_hp n s in s'\<lparr>heap_hp := operator_delete a (heap_hp s')\<rparr>)"
| "delete_DataToDelete (OfEntry a e) s =
     (let s' = delete_DataToDelete e s in s'\<lparr>heap_hp := operator_delete a (heap_hp s')\<rparr>)"

text \<open>\<^verbatim>\<open>append_to_delete_list\<close> (lines 119--123): the new entry becomes the head of the list.\<close>

definition append_to_delete_list :: "DataToDelete \<Rightarrow> 'a state_hp \<Rightarrow> 'a state_hp" where
  "append_to_delete_list e s = s\<lparr>to_delete_list := e # to_delete_list s\<rparr>"

text \<open>
  \<^verbatim>\<open>try_delete\<close> (lines 125--136). \<open>try_delete_loop\<close> is the \<^verbatim>\<open>while (cur)\<close> loop over the
  chain that the \<^verbatim>\<open>exchange(nullptr)\<close> of line 126 took out of \<^verbatim>\<open>to_delete_list_\<close>.
  A \<^verbatim>\<open>bad_alloc\<close> of line 132 leaves the function with the state reached so far.
\<close>

primrec try_delete_loop :: "DataToDelete list \<Rightarrow> 'a state_hp \<Rightarrow> exn option \<times> 'a state_hp" where
  "try_delete_loop [] s = (None, s)"
| "try_delete_loop (cur # rest) s =
     (if \<not> is_existing (data cur) (HazardPointers s)
      then try_delete_loop rest (delete_DataToDelete cur s)
      else (case operator_new (heap_hp s) of
              None \<Rightarrow> (Some bad_alloc, s)
            | Some (a, h) \<Rightarrow>
                try_delete_loop rest (append_to_delete_list (OfEntry a cur) (s\<lparr>heap_hp := h\<rparr>))))"

definition try_delete :: "'a state_hp \<Rightarrow> exn option \<times> 'a state_hp" where
  "try_delete s = try_delete_loop (to_delete_list s) (s\<lparr>to_delete_list := []\<rparr>)"

text \<open>Lines 88--92 of \<^verbatim>\<open>pop\<close>: the detached node is deferred or deleted.\<close>

definition retire :: "addr \<Rightarrow> 'a state_hp \<Rightarrow> exn + 'a state_hp" where
  "retire a s =
     (if is_existing a (HazardPointers s)
      then (case operator_new (heap_hp s) of
              None \<Rightarrow> Inl bad_alloc
            | Some (e, h) \<Rightarrow> Inr (append_to_delete_list (OfNode e a) (s\<lparr>heap_hp := h\<rparr>)))
      else Inr (delete_Node_hp a s))"

definition set_thread_hp :: "tid \<Rightarrow> 'a thread_hp \<Rightarrow> 'a state_hp \<Rightarrow> 'a state_hp" where
  "set_thread_hp i th s = s\<lparr>threads_hp := (threads_hp s)(i := th)\<rparr>"

text \<open>The call returns (or throws): the outcome is recorded and the thread is idle again.\<close>

definition leave_hp :: "tid \<Rightarrow> 'a outcome \<Rightarrow> 'a state_hp \<Rightarrow> 'a state_hp" where
  "leave_hp i r s =
     set_thread_hp i ((threads_hp s i)\<lparr>pc_hp := Idle_hp,
        outcomes_hp := outcomes_hp (threads_hp s i) @ [r]\<rparr>) s"

text \<open>A store to the \<^verbatim>\<open>p\<close> of the thread's own slot (\<^verbatim>\<open>hazard_pointer.store\<close>).\<close>

definition store_p :: "nat \<Rightarrow> addr option \<Rightarrow> HazardPointer list \<Rightarrow> HazardPointer list" where
  "store_p k ptr hps = hps[k := (hps ! k)\<lparr>p_hp := ptr\<rparr>]"

definition store_id :: "nat \<Rightarrow> tid option \<Rightarrow> HazardPointer list \<Rightarrow> HazardPointer list" where
  "store_id k i hps = hps[k := (hps ! k)\<lparr>id_hp := i\<rparr>]"

text \<open>
  One step of thread \<open>i\<close>. The constructor of a program counter is the source line the
  step executes.
  \<^item> \<open>push_67\<close>: \<^verbatim>\<open>Node* t = new Node(x);\<close>
  \<^item> \<open>push_68\<close>: \<^verbatim>\<open>t->next = head_.load();\<close>
  \<^item> \<open>push_69\<close>: \<^verbatim>\<open>while (!head_.compare_exchange_weak(t->next, t)) {}\<close>
  \<^item> \<open>pop_74\<close>: \<^verbatim>\<open>hazard_pointer_for_this_thread()\<close>, which constructs the thread-local
    helper at the thread's first call
  \<^item> \<open>pop_75\<close>: \<^verbatim>\<open>Node* t = head_.load();\<close>
  \<^item> \<open>pop_80\<close>: \<^verbatim>\<open>t2 = t; hazard_pointer.store(t);\<close>
  \<^item> \<open>pop_81\<close>: \<^verbatim>\<open>t = head_.load(); } while (t != t2);\<close>
  \<^item> \<open>pop_83\<close>: \<^verbatim>\<open>} while (t && !head_.compare_exchange_strong(t, t->next));\<close>
  \<^item> \<open>pop_84\<close>: \<^verbatim>\<open>hazard_pointer.store(nullptr); std::shared_ptr<T> res; if (t) ... return res;\<close>
  \<^item> \<open>pop_87\<close>: \<^verbatim>\<open>res.swap(t->v); if (is_existing(t)) ... else delete t;\<close>
  \<^item> \<open>pop_93\<close>: \<^verbatim>\<open>try_delete(); return res;\<close>
  \<^item> \<open>exit_35\<close>, \<open>exit_36\<close>: the destructor of the helper at thread exit,
    \<^verbatim>\<open>hazard_pointer->p.store(nullptr); hazard_pointer->id.store(std::thread::id{});\<close>
  A thread that dereferences a node that is no longer live has undefined behaviour and
  stops in \<open>UB_hp\<close>.
\<close>

definition step_hp :: "tid \<Rightarrow> 'a state_hp \<Rightarrow> 'a state_hp" where
  "step_hp i s =
     (let th = threads_hp s i in
      case pc_hp th of
        Idle_hp \<Rightarrow> s
      | UB_hp \<Rightarrow> s
      | push_67 \<Rightarrow>
          (case operator_new (heap_hp s) of
             None \<Rightarrow> leave_hp i (Threw bad_alloc) s
           | Some (a, h) \<Rightarrow>
               set_thread_hp i (th\<lparr>pc_hp := push_68, t_hp := Some a\<rparr>)
                 (s\<lparr>heap_hp := h,
                    nodes_hp := (nodes_hp s)(a \<mapsto> \<lparr>v_hp = arg_hp th, next_hp = None\<rparr>)\<rparr>))
      | push_68 \<Rightarrow>
          (case t_hp th of
             None \<Rightarrow> set_thread_hp i (th\<lparr>pc_hp := UB_hp\<rparr>) s
           | Some a \<Rightarrow>
               (case nodes_hp s a of
                  None \<Rightarrow> set_thread_hp i (th\<lparr>pc_hp := UB_hp\<rparr>) s
                | Some n \<Rightarrow>
                    set_thread_hp i (th\<lparr>pc_hp := push_69\<rparr>)
                      (s\<lparr>nodes_hp := (nodes_hp s)(a \<mapsto> n\<lparr>next_hp := head_hp s\<rparr>)\<rparr>)))
      | push_69 \<Rightarrow>
          (case t_hp th of
             None \<Rightarrow> set_thread_hp i (th\<lparr>pc_hp := UB_hp\<rparr>) s
           | Some a \<Rightarrow>
               (case nodes_hp s a of
                  None \<Rightarrow> set_thread_hp i (th\<lparr>pc_hp := UB_hp\<rparr>) s
                | Some n \<Rightarrow>
                    (case compare_exchange (head_hp s) (next_hp n) (Some a) of
                       (True, h, e) \<Rightarrow> leave_hp i Returned_void (s\<lparr>head_hp := h\<rparr>)
                     | (False, h, e) \<Rightarrow>
                         s\<lparr>nodes_hp := (nodes_hp s)(a \<mapsto> n\<lparr>next_hp := e\<rparr>)\<rparr>)))
      | pop_74 \<Rightarrow>
          (case hazard_pointer th of
             Some k \<Rightarrow> set_thread_hp i (th\<lparr>pc_hp := pop_75\<rparr>) s
           | None \<Rightarrow>
               (case HazardPointerHelper i (HazardPointers s) of
                  Inl e \<Rightarrow> leave_hp i (Threw e) s
                | Inr (k, hps) \<Rightarrow>
                    set_thread_hp i (th\<lparr>pc_hp := pop_75, hazard_pointer := Some k\<rparr>)
                      (s\<lparr>HazardPointers := hps\<rparr>)))
      | pop_75 \<Rightarrow> set_thread_hp i (th\<lparr>pc_hp := pop_80, t_hp := head_hp s\<rparr>) s
      | pop_80 \<Rightarrow>
          (case hazard_pointer th of
             None \<Rightarrow> set_thread_hp i (th\<lparr>pc_hp := UB_hp\<rparr>) s
           | Some k \<Rightarrow>
               set_thread_hp i (th\<lparr>pc_hp := pop_81, t2_hp := t_hp th\<rparr>)
                 (s\<lparr>HazardPointers := store_p k (t_hp th) (HazardPointers s)\<rparr>))
      | pop_81 \<Rightarrow>
          set_thread_hp i
            (th\<lparr>pc_hp := (if head_hp s \<noteq> t2_hp th then pop_80 else pop_83),
                t_hp := head_hp s\<rparr>) s
      | pop_83 \<Rightarrow>
          (case t_hp th of
             None \<Rightarrow> set_thread_hp i (th\<lparr>pc_hp := pop_84\<rparr>) s
           | Some a \<Rightarrow>
               (case nodes_hp s a of
                  None \<Rightarrow> set_thread_hp i (th\<lparr>pc_hp := UB_hp\<rparr>) s
                | Some n \<Rightarrow>
                    (case compare_exchange (head_hp s) (Some a) (next_hp n) of
                       (True, h, e) \<Rightarrow>
                         set_thread_hp i (th\<lparr>pc_hp := pop_84\<rparr>) (s\<lparr>head_hp := h\<rparr>)
                     | (False, h, e) \<Rightarrow>
                         set_thread_hp i (th\<lparr>pc_hp := pop_80, t_hp := e\<rparr>) s)))
      | pop_84 \<Rightarrow>
          (case hazard_pointer th of
             None \<Rightarrow> set_thread_hp i (th\<lparr>pc_hp := UB_hp\<rparr>) s
           | Some k \<Rightarrow>
               (let s' = s\<lparr>HazardPointers := store_p k None (HazardPointers s)\<rparr> in
                case t_hp th of
                  None \<Rightarrow>
                    leave_hp i (Returned None) (set_thread_hp i (th\<lparr>res_hp := None\<rparr>) s')
                | Some a \<Rightarrow> set_thread_hp i (th\<lparr>pc_hp := pop_87, res_hp := None\<rparr>) s'))
      | pop_87 \<Rightarrow>
          (case t_hp th of
             None \<Rightarrow> set_thread_hp i (th\<lparr>pc_hp := UB_hp\<rparr>) s
           | Some a \<Rightarrow>
               (case nodes_hp s a of
                  None \<Rightarrow> set_thread_hp i (th\<lparr>pc_hp := UB_hp\<rparr>) s
                | Some n \<Rightarrow>
                    (let s' = s\<lparr>nodes_hp := (nodes_hp s)(a \<mapsto> n\<lparr>v_hp := res_hp th\<rparr>)\<rparr>;
                         th' = th\<lparr>res_hp := v_hp n\<rparr>
                     in case retire a s' of
                          Inl e \<Rightarrow> leave_hp i (Threw e) (set_thread_hp i th' s')
                        | Inr s'' \<Rightarrow> set_thread_hp i (th'\<lparr>pc_hp := pop_93\<rparr>) s'')))
      | pop_93 \<Rightarrow>
          (case try_delete s of
             (Some e, s') \<Rightarrow> leave_hp i (Threw e) s'
           | (None, s') \<Rightarrow> leave_hp i (Returned (res_hp th)) s')
      | exit_35 \<Rightarrow>
          (case hazard_pointer th of
             None \<Rightarrow> leave_hp i Returned_void s
           | Some k \<Rightarrow>
               set_thread_hp i (th\<lparr>pc_hp := exit_36\<rparr>)
                 (s\<lparr>HazardPointers := store_p k None (HazardPointers s)\<rparr>))
      | exit_36 \<Rightarrow>
          (case hazard_pointer th of
             None \<Rightarrow> set_thread_hp i (th\<lparr>pc_hp := UB_hp\<rparr>) s
           | Some k \<Rightarrow>
               leave_hp i Returned_void
                 (set_thread_hp i (th\<lparr>hazard_pointer := None\<rparr>)
                    (s\<lparr>HazardPointers := store_id k None (HazardPointers s)\<rparr>))))"

text \<open>
  A thread that is not inside a call starts one. The class declares no destructor
  (lines 63--142), so destroying the stack object runs nothing of the class: the three
  atomic members are released and no node is touched.
\<close>

definition call_hp :: "tid \<Rightarrow> 'a op \<Rightarrow> 'a state_hp \<Rightarrow> 'a state_hp" where
  "call_hp i c s =
     (let th = threads_hp s i in
      if pc_hp th \<noteq> Idle_hp then s
      else (case c of
              Push x \<Rightarrow> set_thread_hp i (th\<lparr>pc_hp := push_67, arg_hp := Some x\<rparr>) s
            | Pop \<Rightarrow> set_thread_hp i (th\<lparr>pc_hp := pop_74\<rparr>) s
            | Destroy \<Rightarrow> leave_hp i Returned_void s
            | ThreadExit \<Rightarrow> set_thread_hp i (th\<lparr>pc_hp := exit_35\<rparr>) s))"

primrec event_hp :: "'a event \<Rightarrow> 'a state_hp \<Rightarrow> 'a state_hp" where
  "event_hp (Call i c) s = call_hp i c s"
| "event_hp (Step i) s = step_hp i s"

text \<open>An interleaving of the threads is a list of events, executed from left to right.\<close>

definition exec_hp :: "'a event list \<Rightarrow> 'a state_hp \<Rightarrow> 'a state_hp" where
  "exec_hp es s = foldl (\<lambda>s e. event_hp e s) s es"

text \<open>
  A thread running alone until its call has returned or has run into undefined
  behaviour. \<open>None\<close>: it never does.
\<close>

partial_function (option) run_hp :: "tid \<Rightarrow> 'a state_hp \<Rightarrow> 'a state_hp option" where
  "run_hp i s =
     (if pc_hp (threads_hp s i) = Idle_hp \<or> pc_hp (threads_hp s i) = UB_hp then Some s
      else run_hp i (step_hp i s))"

declare run_hp.simps [code]

definition do_hp :: "tid \<Rightarrow> 'a op \<Rightarrow> 'a state_hp \<Rightarrow> 'a state_hp option" where
  "do_hp i c s = run_hp i (call_hp i c s)"

text \<open>Calls executed one after the other, each to completion.\<close>

fun seq_hp :: "(tid \<times> 'a op) list \<Rightarrow> 'a state_hp \<Rightarrow> 'a state_hp option" where
  "seq_hp [] s = Some s"
| "seq_hp ((i, c) # cs) s = (case do_hp i c s of None \<Rightarrow> None | Some s' \<Rightarrow> seq_hp cs s')"

subsection \<open>The split-reference-count stack (unnamed/part\_000, lines 96--172)\<close>

text \<open>
  \<^verbatim>\<open>int\<close> is a 32-bit word, as on the platforms the repository builds for; additions
  and negations wrap.
\<close>

record ReferenceCount =
  external_cnt :: "32 word"
  p_rc :: "addr option"

record 'a Node_rc =
  v_rc :: "'a option"
  inner_cnt :: "32 word"
  next_rc :: ReferenceCount

datatype pc_rc =
    Idle_rc
  | push_105 | push_109 | push_110
  | pop_116 | pop_118 | pop_119 | pop_125 | pop_136
  | UB_rc

text \<open>
  The locals of a thread: the argument of \<^verbatim>\<open>push\<close>, the locals \<^verbatim>\<open>t\<close> and \<^verbatim>\<open>p\<close>,
  whether the running \<^verbatim>\<open>pop\<close> was called by the destructor's loop, and what its calls
  returned so far.
\<close>

record 'a thread_rc =
  pc_rc :: pc_rc
  arg_rc :: "'a option"
  t_rc :: ReferenceCount
  p_local_rc :: "addr option"
  in_destructor :: bool
  outcomes_rc :: "'a outcome list"

record 'a state_rc =
  head_rc :: ReferenceCount
  nodes_rc :: "addr \<rightharpoonup> 'a Node_rc"
  heap_rc :: heap
  threads_rc :: "tid \<Rightarrow> 'a thread_rc"

definition thread_init_rc :: "'a thread_rc" where
  "thread_init_rc =
     \<lparr>pc_rc = Idle_rc, arg_rc = None, t_rc = \<lparr>external_cnt = 0, p_rc = None\<rparr>,
      p_local_rc = None, in_destructor = False, outcomes_rc = []\<rparr>"

definition init_rc :: "nat \<Rightarrow> 'a state_rc" where
  "init_rc cells =
     \<lparr>head_rc = \<lparr>external_cnt = 0, p_rc = None\<rparr>, nodes_rc = Map.empty,
      heap_rc = \<lparr>next_addr = 0, capacity = cells, freed = []\<rparr>,
      threads_rc = (\<lambda>i. thread_init_rc)\<rparr>"

definition delete_Node_rc :: "addr \<Rightarrow> 'a state_rc \<Rightarrow> 'a state_rc" where
  "delete_Node_rc a s =
     s\<lparr>nodes_rc := (nodes_rc s)(a := None), heap_rc := operator_delete a (heap_rc s)\<rparr>"

definition set_thread_rc :: "tid \<Rightarrow> 'a thread_rc \<Rightarrow> 'a state_rc \<Rightarrow> 'a state_rc" where
  "set_thread_rc i th s = s\<lparr>threads_rc := (threads_rc s)(i := th)\<rparr>"

definition leave_rc :: "tid \<Rightarrow> 'a outcome \<Rightarrow> 'a state_rc \<Rightarrow> 'a state_rc" where
  "leave_rc i r s =
     set_thread_rc i ((threads_rc s i)\<lparr>pc_rc := Idle_rc, in_destructor := False,
        outcomes_rc := outcomes_rc (threads_rc s i) @ [r]\<rparr>) s"

text \<open>
  \<^verbatim>\<open>pop\<close> returns \<open>res\<close>. Called by a user, the call is over. Called by the destructor
  (lines 99--102, \<^verbatim>\<open>while (pop()) {}\<close>), a non-null result starts the next \<^verbatim>\<open>pop\<close> and a
  null result ends the destructor.
\<close>

definition pop_return_rc :: "tid \<Rightarrow> 'a option \<Rightarrow> 'a state_rc \<Rightarrow> 'a state_rc" where
  "pop_return_rc i res s =
     (if in_destructor (threads_rc s i)
      then (if res \<noteq> None then set_thread_rc i ((threads_rc s i)\<lparr>pc_rc := pop_116\<rparr>) s
            else leave_rc i Returned_void s)
      else leave_rc i (Returned res) s)"

text \<open>
  Lines 125--133 of \<^verbatim>\<open>pop\<close>, after the successful exchange of line 123:
  \<^verbatim>\<open>res.swap(p->v); const int cnt = t.external_cnt - 2;
  if (p->inner_cnt.fetch_add(cnt) == -cnt) delete p;\<close>
  The result is \<open>res\<close> and the new state.
\<close>

definition pop_detached :: "addr \<Rightarrow> 'a Node_rc \<Rightarrow> ReferenceCount \<Rightarrow> 'a state_rc \<Rightarrow> 'a option \<times> 'a state_rc" where
  "pop_detached a n t s =
     (let cnt = external_cnt t - 2;
          old = inner_cnt n;
          s' = s\<lparr>nodes_rc := (nodes_rc s)(a \<mapsto> n\<lparr>v_rc := None, inner_cnt := old + cnt\<rparr>)\<rparr>
      in (v_rc n, if old = - cnt then delete_Node_rc a s' else s'))"

text \<open>
  Lines 136--140 of \<^verbatim>\<open>pop\<close>, after the failed exchange of line 123:
  \<^verbatim>\<open>if (p->inner_cnt.fetch_sub(1) == 1) { p->inner_cnt.load(); delete p; }\<close>
\<close>

definition pop_lost :: "addr \<Rightarrow> 'a Node_rc \<Rightarrow> 'a state_rc \<Rightarrow> 'a state_rc" where
  "pop_lost a n s =
     (let old = inner_cnt n;
          s' = s\<lparr>nodes_rc := (nodes_rc s)(a \<mapsto> n\<lparr>inner_cnt := old - 1\<rparr>)\<rparr>
      in if old = 1 then delete_Node_rc a s' else s')"

text \<open>
  One step of thread \<open>i\<close>.
  \<^item> \<open>push_105\<close>: \<^verbatim>\<open>ReferenceCount t; t.p = new Node(x); t.external_cnt = 1;\<close>
  \<^item> \<open>push_109\<close>: \<^verbatim>\<open>t.p->next = head_.load();\<close>
  \<^item> \<open>push_110\<close>: \<^verbatim>\<open>while (!head_.compare_exchange_weak(t.p->next, t)) {}\<close>
  \<^item> \<open>pop_116\<close>: \<^verbatim>\<open>ReferenceCount t = head_.load();\<close>
  \<^item> \<open>pop_118\<close>: \<^verbatim>\<open>increase_count(t)\<close> (lines 159--168), one turn of its loop:
    \<^verbatim>\<open>new_cnt = old_cnt; ++new_cnt.external_cnt;\<close> and the exchange of line 164; on
    success \<^verbatim>\<open>old_cnt.external_cnt = new_cnt.external_cnt\<close>
  \<^item> \<open>pop_119\<close>: \<^verbatim>\<open>Node* p = t.p; if (!p) return nullptr;
    if (head_.compare_exchange_strong(t, p->next))\<close>
  \<^item> \<open>pop_125\<close>: lines 125--134, \<open>pop_detached\<close> and \<^verbatim>\<open>return res;\<close>
  \<^item> \<open>pop_136\<close>: lines 136--140, \<open>pop_lost\<close>, and back to line 118
\<close>

definition step_rc :: "tid \<Rightarrow> 'a state_rc \<Rightarrow> 'a state_rc" where
  "step_rc i s =
     (let th = threads_rc s i in
      case pc_rc th of
        Idle_rc \<Rightarrow> s
      | UB_rc \<Rightarrow> s
      | push_105 \<Rightarrow>
          (case operator_new (heap_rc s) of
             None \<Rightarrow> leave_rc i (Threw bad_alloc) s
           | Some (a, h) \<Rightarrow>
               set_thread_rc i
                 (th\<lparr>pc_rc := push_109, t_rc := \<lparr>external_cnt = 1, p_rc = Some a\<rparr>\<rparr>)
                 (s\<lparr>heap_rc := h,
                    nodes_rc := (nodes_rc s)(a \<mapsto>
                      \<lparr>v_rc = arg_rc th, inner_cnt = 0,
                       next_rc = \<lparr>external_cnt = 0, p_rc = None\<rparr>\<rparr>)\<rparr>))
      | push_109 \<Rightarrow>
          (case p_rc (t_rc th) of
             None \<Rightarrow> set_thread_rc i (th\<lparr>pc_rc := UB_rc\<rparr>) s
           | Some a \<Rightarrow>
               (case nodes_rc s a of
                  None \<Rightarrow> set_thread_rc i (th\<lparr>pc_rc := UB_rc\<rparr>) s
                | Some n \<Rightarrow>
                    set_thread_rc i (th\<lparr>pc_rc := push_110\<rparr>)
                      (s\<lparr>nodes_rc := (nodes_rc s)(a \<mapsto> n\<lparr>next_rc := head_rc s\<rparr>)\<rparr>)))
      | push_110 \<Rightarrow>
          (case p_rc (t_rc th) of
             None \<Rightarrow> set_thread_rc i (th\<lparr>pc_rc := UB_rc\<rparr>) s
           | Some a \<Rightarrow>
               (case nodes_rc s a of
                  None \<Rightarrow> set_thread_rc i (th\<lparr>pc_rc := UB_rc\<rparr>) s
                | Some n \<Rightarrow>
                    (case compare_exchange (head_rc s) (next_rc n) (t_rc th) of
                       (True, h, e) \<Rightarrow> leave_rc i Returned_void (s\<lparr>head_rc := h\<rparr>)
                     | (False, h, e) \<Rightarrow>
                         s\<lparr>nodes_rc := (nodes_rc s)(a \<mapsto> n\<lparr>next_rc := e\<rparr>)\<rparr>)))
      | pop_116 \<Rightarrow> set_thread_rc i (th\<lparr>pc_rc := pop_118, t_rc := head_rc s\<rparr>) s
      | pop_118 \<Rightarrow>
          (let old_cnt = t_rc th;
               new_cnt = old_cnt\<lparr>external_cnt := external_cnt old_cnt + 1\<rparr>
           in case compare_exchange (head_rc s) old_cnt new_cnt of
                (True, h, e) \<Rightarrow>
                  set_thread_rc i
                    (th\<lparr>pc_rc := pop_119,
                        t_rc := e\<lparr>external_cnt := external_cnt new_cnt\<rparr>\<rparr>)
                    (s\<lparr>head_rc := h\<rparr>)
              | (False, h, e) \<Rightarrow> set_thread_rc i (th\<lparr>t_rc := e\<rparr>) s)
      | pop_119 \<Rightarrow>
          (case p_rc (t_rc th) of
             None \<Rightarrow> pop_return_rc i None (set_thread_rc i (th\<lparr>p_local_rc := None\<rparr>) s)
           | Some a \<Rightarrow>
               (case nodes_rc s a of
                  None \<Rightarrow> set_thread_rc i (th\<lparr>pc_rc := UB_rc, p_local_rc := Some a\<rparr>) s
                | Some n \<Rightarrow>
                    (case compare_exchange (head_rc s) (t_rc th) (next_rc n) of
                       (True, h, e) \<Rightarrow>
                         set_thread_rc i (th\<lparr>pc_rc := pop_125, p_local_rc := Some a\<rparr>)
                           (s\<lparr>head_rc := h\<rparr>)
                     | (False, h, e) \<Rightarrow>
                         set_thread_rc i
                           (th\<lparr>pc_rc := pop_136, p_local_rc := Some a, t_rc := e\<rparr>) s)))
      | pop_125 \<Rightarrow>
          (case p_local_rc th of
             None \<Rightarrow> set_thread_rc i (th\<lparr>pc_rc := UB_rc\<rparr>) s
           | Some a \<Rightarrow>
               (case nodes_rc s a of
                  None \<Rightarrow> set_thread_rc i (th\<lparr>pc_rc := UB_rc\<rparr>) s
                | Some n \<Rightarrow>
                    (case pop_detached a n (t_rc th) s of
                       (res, s') \<Rightarrow> pop_return_rc i res s')))
      | pop_136 \<Rightarrow>
          (case p_local_rc th of
             None \<Rightarrow> set_thread_rc i (th\<lparr>pc_rc := UB_rc\<rparr>) s
           | Some a \<Rightarrow>
               (case nodes_rc s a of
                  None \<Rightarrow> set_thread_rc i (th\<lparr>pc_rc := UB_rc\<rparr>) s
                | Some n \<Rightarrow> set_thread_rc i (th\<lparr>pc_rc := pop_118\<rparr>) (pop_lost a n s))))"

text \<open>
  A thread that is not inside a call starts one. The destructor (lines 99--102) is the
  loop \<^verbatim>\<open>while (pop()) {}\<close>. The class has no thread-local state, so a thread's exit
  runs nothing.
\<close>

definition call_rc :: "tid \<Rightarrow> 'a op \<Rightarrow> 'a state_rc \<Rightarrow> 'a state_rc" where
  "call_rc i c s =
     (let th = threads_rc s i in
      if pc_rc th \<noteq> Idle_rc then s
      else (case c of
              Push x \<Rightarrow> set_thread_rc i (th\<lparr>pc_rc := push_105, arg_rc := Some x\<rparr>) s
            | Pop \<Rightarrow> set_thread_rc i (th\<lparr>pc_rc := pop_116, in_destructor := False\<rparr>) s
            | Destroy \<Rightarrow> set_thread_rc i (th\<lparr>pc_rc := pop_116, in_destructor := True\<rparr>) s
            | ThreadExit \<Rightarrow> leave_rc i Returned_void s))"

primrec event_rc :: "'a event \<Rightarrow> 'a state_rc \<Rightarrow> 'a state_rc" where
  "event_rc (Call i c) s = call_rc i c s"
| "event_rc (Step i) s = step_rc i s"

definition exec_rc :: "'a event list \<Rightarrow> 'a state_rc \<Rightarrow> 'a state_rc" where
  "exec_rc es s = foldl (\<lambda>s e. event_rc e s) s es"

partial_function (option) run_rc :: "tid \<Rightarrow> 'a state_rc \<Rightarrow> 'a state_rc option" where
  "run_rc i s =
     (if pc_rc (threads_rc s i) = Idle_rc \<or> pc_rc (threads_rc s i) = UB_rc then Some s
      else run_rc i (step_rc i s))"

declare run_rc.simps [code]

definition do_rc :: "tid \<Rightarrow> 'a op \<Rightarrow> 'a state_rc \<Rightarrow> 'a state_rc option" where
  "do_rc i c s = run_rc i (call_rc i c s)"

fun seq_rc :: "(tid \<times> 'a op) list \<Rightarrow> 'a state_rc \<Rightarrow> 'a state_rc option" where
  "seq_rc [] s = Some s"
| "seq_rc ((i, c) # cs) s = (case do_rc i c s of None \<Rightarrow> None | Some s' \<Rightarrow> seq_rc cs s')"

subsection \<open>Invariant of the hazard-pointer array\<close>

text \<open>
  Auxiliary predicates for the proofs. A thread that holds a slot is its owner; while a
  thread is outside the lines 80--84 of \<^verbatim>\<open>pop\<close> its slot holds \<^verbatim>\<open>nullptr\<close>; at line 81 the
  slot holds \<^verbatim>\<open>t2\<close> and at line 83 it holds \<^verbatim>\<open>t\<close>; a slot without owner holds \<^verbatim>\<open>nullptr\<close>.
\<close>

fun needs_slot :: "pc_hp \<Rightarrow> bool" where
  "needs_slot pop_75 = True"
| "needs_slot pop_80 = True"
| "needs_slot pop_81 = True"
| "needs_slot pop_83 = True"
| "needs_slot pop_84 = True"
| "needs_slot exit_36 = True"
| "needs_slot _ = False"

fun protecting :: "pc_hp \<Rightarrow> bool" where
  "protecting pop_80 = True"
| "protecting pop_81 = True"
| "protecting pop_83 = True"
| "protecting pop_84 = True"
| "protecting exit_35 = True"
| "protecting UB_hp = True"
| "protecting _ = False"

definition slot_ok :: "HazardPointer list \<Rightarrow> tid \<Rightarrow> 'a thread_hp \<Rightarrow> bool" where
  "slot_ok hps i th =
     (case hazard_pointer th of
        None \<Rightarrow> \<not> needs_slot (pc_hp th)
      | Some k \<Rightarrow>
          k < length hps \<and> id_hp (hps ! k) = Some i \<and>
          (pc_hp th = pop_83 \<longrightarrow> p_hp (hps ! k) = t_hp th) \<and>
          (pc_hp th = pop_84 \<longrightarrow> p_hp (hps ! k) = t_hp th) \<and>
          (pc_hp th = pop_81 \<longrightarrow> p_hp (hps ! k) = t2_hp th) \<and>
          (\<not> protecting (pc_hp th) \<longrightarrow> p_hp (hps ! k) = None))"

definition free_ok :: "HazardPointer list \<Rightarrow> bool" where
  "free_ok hps = (\<forall>k<length hps. id_hp (hps ! k) = None \<longrightarrow> p_hp (hps ! k) = None)"

definition inv_hp :: "'a state_hp \<Rightarrow> bool" where
  "inv_hp s =
     (length (HazardPointers s) = MaxSize \<and> free_ok (HazardPointers s) \<and>
      (\<forall>i. slot_ok (HazardPointers s) i (threads_hp s i)))"

text \<open>What one step of thread \<open>i\<close> may do to the array.\<close>

definition hps_step :: "tid \<Rightarrow> HazardPointer list \<Rightarrow> HazardPointer list \<Rightarrow> bool" where
  "hps_step i hps hps' =
     (hps' = hps \<or> (\<exists>k y. k < length hps \<and> hps' = hps[k := y] \<and>
         (id_hp (hps ! k) = Some i \<or> id_hp (hps ! k) = None)))"

subsection \<open>Auxiliary predicates for the sequential runs\<close>

text \<open>
  \<open>claimed_upto k\<close>: the stack is empty, every thread is idle, exactly the slots below
  \<open>k\<close> have an owner, and the threads from \<open>k\<close> on have neither a slot nor a result yet.
\<close>

definition claimed_upto :: "nat \<Rightarrow> 'a state_hp \<Rightarrow> bool" where
  "claimed_upto k s =
     (head_hp s = None \<and> length (HazardPointers s) = MaxSize \<and>
      (\<forall>j<MaxSize. (id_hp (HazardPointers s ! j) = None) = (k \<le> j)) \<and>
      (\<forall>j. pc_hp (threads_hp s j) = Idle_hp) \<and>
      (\<forall>j\<ge>k. hazard_pointer (threads_hp s j) = None \<and> outcomes_hp (threads_hp s j) = []))"

text \<open>
  \<open>stack_rc ns r xs\<close>: following the pointers from the reference \<open>r\<close> through the live
  nodes \<open>ns\<close> visits exactly the addresses and values \<open>xs\<close> and ends at the null pointer.
\<close>

primrec stack_rc :: "(addr \<rightharpoonup> 'a Node_rc) \<Rightarrow> ReferenceCount \<Rightarrow> (addr \<times> 'a) list \<Rightarrow> bool" where
  "stack_rc ns r [] = (p_rc r = None)"
| "stack_rc ns r (ax # rest) =
     (p_rc r = Some (fst ax) \<and>
      (case ns (fst ax) of
         None \<Rightarrow> False
       | Some n \<Rightarrow> v_rc n = Some (snd ax) \<and> stack_rc ns (next_rc n) rest))"

subsection \<open>Invariant of the reference counts\<close>

text \<open>
  Auxiliary predicates for the proofs about the split reference count. What a thread has
  to do with a node, read off its program counter and locals:
  \<^item> \<open>Holds a\<close>: in \<^verbatim>\<open>pop\<close>, after \<^verbatim>\<open>increase_count\<close> counted the thread into the external
    count of node \<open>a\<close> (line 119), until it gives the reference back at line 136;
  \<^item> \<open>Wins a\<close>: at line 125, after its exchange of line 123 took \<open>a\<close> off the stack;
  \<^item> \<open>Owns a\<close>: in \<^verbatim>\<open>push\<close>, between the allocation of \<open>a\<close> and the exchange that links it;
  \<^item> \<open>Bad\<close>: a state that the code cannot be in without undefined behaviour.
\<close>

datatype role = NoRole | Holds addr | Wins addr | Owns addr | Bad

primrec role_node :: "role \<Rightarrow> addr option" where
  "role_node NoRole = None"
| "role_node (Holds a) = Some a"
| "role_node (Wins a) = Some a"
| "role_node (Owns a) = Some a"
| "role_node Bad = None"

definition role_rc :: "'a thread_rc \<Rightarrow> role" where
  "role_rc th =
     (case pc_rc th of
        pop_119 \<Rightarrow> (case p_rc (t_rc th) of None \<Rightarrow> NoRole | Some a \<Rightarrow> Holds a)
      | pop_136 \<Rightarrow> (case p_local_rc th of None \<Rightarrow> Bad | Some a \<Rightarrow> Holds a)
      | pop_125 \<Rightarrow> (case p_local_rc th of None \<Rightarrow> Bad | Some a \<Rightarrow> Wins a)
      | push_109 \<Rightarrow> (case p_rc (t_rc th) of None \<Rightarrow> Bad | Some a \<Rightarrow> Owns a)
      | push_110 \<Rightarrow> (case p_rc (t_rc th) of None \<Rightarrow> Bad | Some a \<Rightarrow> Owns a)
      | UB_rc \<Rightarrow> Bad
      | Idle_rc \<Rightarrow> NoRole
      | push_105 \<Rightarrow> NoRole
      | pop_116 \<Rightarrow> NoRole
      | pop_118 \<Rightarrow> NoRole)"

definition roles_rc :: "'a state_rc \<Rightarrow> tid \<Rightarrow> role" where
  "roles_rc s i = role_rc (threads_rc s i)"

definition exts_rc :: "'a state_rc \<Rightarrow> tid \<Rightarrow> 32 word" where
  "exts_rc s i = external_cnt (t_rc (threads_rc s i))"

text \<open>
  \<open>linked_rc K ns r as\<close>: following the pointers from the reference \<open>r\<close> through the live
  nodes \<open>ns\<close> visits exactly the addresses \<open>as\<close> and ends at the null pointer, and \<open>K\<close> holds
  of every visited node and the external count of the reference that points to it.
\<close>

primrec linked_rc ::
  "(addr \<Rightarrow> 32 word \<Rightarrow> 'a Node_rc \<Rightarrow> bool) \<Rightarrow> (addr \<rightharpoonup> 'a Node_rc) \<Rightarrow> ReferenceCount \<Rightarrow>
     addr list \<Rightarrow> bool" where
  "linked_rc K ns r [] = (p_rc r = None)"
| "linked_rc K ns r (a # as) =
     (p_rc r = Some a \<and>
      (case ns a of
         None \<Rightarrow> False
       | Some n \<Rightarrow> K a (external_cnt r) n \<and> linked_rc K ns (next_rc n) as))"

definition holders :: "(tid \<Rightarrow> role) \<Rightarrow> addr \<Rightarrow> tid set" where
  "holders ro a = {i. ro i = Holds a}"

definition winners :: "(tid \<Rightarrow> role) \<Rightarrow> addr \<Rightarrow> tid set" where
  "winners ro a = {i. ro i = Wins a}"

definition owners :: "(tid \<Rightarrow> role) \<Rightarrow> addr \<Rightarrow> tid set" where
  "owners ro a = {i. ro i = Owns a}"

definition rc_busy :: "(tid \<Rightarrow> role) \<Rightarrow> tid set" where
  "rc_busy ro = {i. ro i \<noteq> NoRole}"

text \<open>
  The counts of a node that is linked in the stack: the external count \<open>e\<close> of the
  reference to it and its inner count add up to one (for the stack) plus the number of
  threads that hold it; the inner count is minus the number of references given back, at
  most \<open>k\<close> of them.
\<close>

definition linked_ok :: "nat \<Rightarrow> (tid \<Rightarrow> role) \<Rightarrow> addr \<Rightarrow> 32 word \<Rightarrow> 'a Node_rc \<Rightarrow> bool" where
  "linked_ok k ro a e n =
     (e + inner_cnt n = 1 + of_nat (card (holders ro a)) \<and> unat (- inner_cnt n) \<le> k \<and>
      winners ro a = {} \<and> owners ro a = {})"

text \<open>
  The counts of a live node that is not linked: it is owned by the \<^verbatim>\<open>push\<close> that allocated
  it, with counts 1 and 0; or one \<^verbatim>\<open>pop\<close> has taken it off the stack and has not yet added
  \<^verbatim>\<open>external_cnt - 2\<close> (the external count \<open>we i\<close> that this thread remembers and the inner
  count add up to two plus the number of holders); or that addition is done and the inner
  count is the number of holders, which is not zero.
\<close>

definition detached_ok ::
  "nat \<Rightarrow> (tid \<Rightarrow> role) \<Rightarrow> (tid \<Rightarrow> 32 word) \<Rightarrow> addr \<Rightarrow> 'a Node_rc \<Rightarrow> bool" where
  "detached_ok k ro we a n =
     ((\<exists>i. owners ro a = {i} \<and> we i = 1) \<and> winners ro a = {} \<and> holders ro a = {} \<and>
        inner_cnt n = 0
      \<or> owners ro a = {} \<and>
        (\<exists>i. winners ro a = {i} \<and> we i + inner_cnt n = 2 + of_nat (card (holders ro a))) \<and>
        unat (- inner_cnt n) \<le> k
      \<or> owners ro a = {} \<and> winners ro a = {} \<and>
        inner_cnt n = of_nat (card (holders ro a)) \<and> holders ro a \<noteq> {})"

text \<open>
  After \<open>k\<close> events at most \<open>k\<close> threads are inside a call, and \<open>k\<close> stays below the number
  of values of a 32-bit counter.
\<close>

definition rc_bound :: "nat \<Rightarrow> (tid \<Rightarrow> role) \<Rightarrow> bool" where
  "rc_bound k ro =
     (k < 4294967295 \<and> finite (rc_busy ro) \<and> card (rc_busy ro) \<le> k \<and> (\<forall>i. ro i \<noteq> Bad))"

definition rc_shape ::
  "nat \<Rightarrow> (tid \<Rightarrow> role) \<Rightarrow> (tid \<Rightarrow> 32 word) \<Rightarrow> (addr \<rightharpoonup> 'a Node_rc) \<Rightarrow> ReferenceCount \<Rightarrow> bool" where
  "rc_shape k ro we ns h0 =
     (\<exists>as. distinct as \<and> linked_rc (linked_ok k ro) ns h0 as \<and>
           (\<forall>a n. ns a = Some n \<longrightarrow> a \<notin> set as \<longrightarrow> detached_ok k ro we a n))"

text \<open>No thread refers to a node that has been deleted.\<close>

definition rc_live :: "(tid \<Rightarrow> role) \<Rightarrow> (addr \<rightharpoonup> 'a Node_rc) \<Rightarrow> bool" where
  "rc_live ro ns = (\<forall>a i. ns a = None \<longrightarrow> role_node (ro i) \<noteq> Some a)"

text \<open>
  The free store: no address was deleted twice, and the nodes that are not live are the
  deleted ones and those not yet allocated.
\<close>

definition heap_ok :: "(addr \<rightharpoonup> 'a Node_rc) \<Rightarrow> heap \<Rightarrow> bool" where
  "heap_ok ns hp =
     (distinct (freed hp) \<and> (\<forall>a. (ns a = None) = (a \<in> set (freed hp) \<or> next_addr hp \<le> a)) \<and>
      (\<forall>a \<in> set (freed hp). a < next_addr hp))"

definition rc_inv ::
  "nat \<Rightarrow> (tid \<Rightarrow> role) \<Rightarrow> (tid \<Rightarrow> 32 word) \<Rightarrow> (addr \<rightharpoonup> 'a Node_rc) \<Rightarrow> ReferenceCount \<Rightarrow>
     heap \<Rightarrow> bool" where
  "rc_inv k ro we ns h0 hp =
     (rc_bound k ro \<and> rc_shape k ro we ns h0 \<and> rc_live ro ns \<and> heap_ok ns hp)"

definition inv_rc :: "nat \<Rightarrow> 'a state_rc \<Rightarrow> bool" where
  "inv_rc k s = rc_inv k (roles_rc s) (exts_rc s) (nodes_rc s) (head_rc s) (heap_rc s)"

text \<open>
  \<open>contended_rc x y m s\<close>: two threads compete for node 0, the head of the stack, and
  \<open>m\<close> exchanges of line 123 have failed on it. The external count in head is \<open>2 + m\<close> and
  the inner count of the node is \<open>- m\<close>, as 32-bit values; thread \<open>x\<close> stands at line 119
  with its \<open>t\<close> equal to head, thread \<open>y\<close> is in \<^verbatim>\<open>increase_count\<close> with its \<^verbatim>\<open>old_cnt\<close> equal
  to head; nothing has been deleted.
\<close>

definition contended_rc :: "tid \<Rightarrow> tid \<Rightarrow> nat \<Rightarrow> 'a state_rc \<Rightarrow> bool" where
  "contended_rc x y m s =
     (head_rc s = \<lparr>external_cnt = 2 + of_nat m, p_rc = Some 0\<rparr> \<and>
      (case nodes_rc s 0 of None \<Rightarrow> False | Some n \<Rightarrow> inner_cnt n = - of_nat m) \<and>
      pc_rc (threads_rc s x) = pop_119 \<and> t_rc (threads_rc s x) = head_rc s \<and>
      pc_rc (threads_rc s y) = pop_118 \<and> t_rc (threads_rc s y) = head_rc s \<and>
      freed (heap_rc s) = [])"

section \<open>Properties\<close>

subsection \<open>Auxiliary facts about the hazard-pointer machine\<close>

lemma claim_slot_Some:
  "claim_slot me hps = Some (k, hps') \<Longrightarrow>
     k < length hps \<and> id_hp (hps ! k) = None \<and> hps' = hps[k := (hps ! k)\<lparr>id_hp := Some me\<rparr>]"
proof (induction hps arbitrary: k hps')
  case Nil
  then show ?case by simp
next
  case (Cons x xs)
  show ?case
  proof (cases "id_hp x = None")
    case True
    with Cons.prems show ?thesis by auto
  next
    case False
    with Cons.prems obtain j ys where c: "claim_slot me xs = Some (j, ys)" and k: "k = Suc j" and h: "hps' = x # ys"
      by (auto split: option.splits)
    from Cons.IH [OF c] k h show ?thesis by simp
  qed
qed

lemma claim_slot_None: "(claim_slot me hps = None) = list_all (\<lambda>x. id_hp x \<noteq> None) hps"
  by (induction hps) (auto split: option.splits)

lemma slot_ok_frame:
  assumes "slot_ok hps j th" and "id_hp (hps ! k) \<noteq> Some j"
  shows "slot_ok (hps[k := y]) j th"
proof (cases "hazard_pointer th")
  case None
  with assms show ?thesis by (simp add: slot_ok_def)
next
  case (Some m)
  with assms have "m \<noteq> k" by (auto simp: slot_ok_def)
  with Some assms(1) show ?thesis by (simp add: slot_ok_def)
qed

lemma inv_hp_init: "inv_hp (init_hp cells)"
  by (simp add: inv_hp_def init_hp_def HazardPointers_init_def slot_ok_def thread_init_hp_def
      free_ok_def)

lemma set_thread_hp_simps [simp]:
  "threads_hp (set_thread_hp i th s) = (threads_hp s)(i := th)"
  "HazardPointers (set_thread_hp i th s) = HazardPointers s"
  "head_hp (set_thread_hp i th s) = head_hp s"
  "to_delete_list (set_thread_hp i th s) = to_delete_list s"
  "nodes_hp (set_thread_hp i th s) = nodes_hp s"
  "heap_hp (set_thread_hp i th s) = heap_hp s"
  by (simp_all add: set_thread_hp_def)

lemma leave_hp_simps [simp]:
  "threads_hp (leave_hp i r s) = (threads_hp s)(i := (threads_hp s i)\<lparr>pc_hp := Idle_hp, outcomes_hp := outcomes_hp (threads_hp s i) @ [r]\<rparr>)"
  "HazardPointers (leave_hp i r s) = HazardPointers s"
  "head_hp (leave_hp i r s) = head_hp s"
  "to_delete_list (leave_hp i r s) = to_delete_list s"
  "nodes_hp (leave_hp i r s) = nodes_hp s"
  "heap_hp (leave_hp i r s) = heap_hp s"
  by (simp_all add: leave_hp_def)

lemma delete_Node_hp_simps [simp]:
  "threads_hp (delete_Node_hp a s) = threads_hp s"
  "HazardPointers (delete_Node_hp a s) = HazardPointers s"
  "head_hp (delete_Node_hp a s) = head_hp s"
  "to_delete_list (delete_Node_hp a s) = to_delete_list s"
  by (simp_all add: delete_Node_hp_def)

lemma delete_DataToDelete_simps [simp]:
  "threads_hp (delete_DataToDelete e s) = threads_hp s"
  "HazardPointers (delete_DataToDelete e s) = HazardPointers s"
  "head_hp (delete_DataToDelete e s) = head_hp s"
  "to_delete_list (delete_DataToDelete e s) = to_delete_list s"
  by (induction e arbitrary: s; simp add: Let_def)+

lemma append_to_delete_list_simps [simp]:
  "threads_hp (append_to_delete_list e s) = threads_hp s"
  "HazardPointers (append_to_delete_list e s) = HazardPointers s"
  "head_hp (append_to_delete_list e s) = head_hp s"
  "to_delete_list (append_to_delete_list e s) = e # to_delete_list s"
  "nodes_hp (append_to_delete_list e s) = nodes_hp s"
  "heap_hp (append_to_delete_list e s) = heap_hp s"
  by (simp_all add: append_to_delete_list_def)

lemma try_delete_loop_frame:
  "try_delete_loop es s = (r, s') \<Longrightarrow>
     threads_hp s' = threads_hp s \<and> HazardPointers s' = HazardPointers s \<and> head_hp s' = head_hp s"
proof (induction es arbitrary: s)
  case Nil
  then show ?case by simp
next
  case (Cons cur rest)
  show ?case
  proof (cases "is_existing (data cur) (HazardPointers s)")
    case False
    with Cons.prems have "try_delete_loop rest (delete_DataToDelete cur s) = (r, s')" by simp
    from Cons.IH [OF this] show ?thesis by simp
  next
    case True
    show ?thesis
    proof (cases "operator_new (heap_hp s)")
      case None
      with True Cons.prems show ?thesis by simp
    next
      case (Some ah)
      obtain a h where ah: "ah = (a, h)" by (cases ah)
      with True Some Cons.prems
      have "try_delete_loop rest (append_to_delete_list (OfEntry a cur) (s\<lparr>heap_hp := h\<rparr>)) = (r, s')"
        by simp
      from Cons.IH [OF this] show ?thesis by simp
    qed
  qed
qed

lemma try_delete_frame:
  "try_delete s = (r, s') \<Longrightarrow>
     threads_hp s' = threads_hp s \<and> HazardPointers s' = HazardPointers s \<and> head_hp s' = head_hp s"
  unfolding try_delete_def by (drule try_delete_loop_frame) simp

lemma retire_frame:
  "retire a s = Inr s' \<Longrightarrow>
     threads_hp s' = threads_hp s \<and> HazardPointers s' = HazardPointers s \<and> head_hp s' = head_hp s"
  by (auto simp: retire_def split: if_splits option.splits)

lemma step_hp_others: "j \<noteq> i \<Longrightarrow> threads_hp (step_hp i s) j = threads_hp s j"
  by (cases "pc_hp (threads_hp s i)")
     (auto simp: step_hp_def Let_def compare_exchange_def
        dest: retire_frame try_delete_frame
        split: option.splits sum.splits prod.splits if_splits bool.splits)

lemma hps_step_refl: "hps_step i hps hps"
  by (simp add: hps_step_def)

lemma hps_step_update:
  "k < length hps \<Longrightarrow> id_hp (hps ! k) = Some i \<or> id_hp (hps ! k) = None \<Longrightarrow>
     hps_step i hps (hps[k := y])"
  unfolding hps_step_def by blast

lemma step_hp_length: "length (HazardPointers (step_hp i s)) = length (HazardPointers s)"
  by (cases "pc_hp (threads_hp s i)")
     (auto simp: step_hp_def Let_def compare_exchange_def store_p_def store_id_def
        HazardPointerHelper_def
        dest: retire_frame try_delete_frame claim_slot_Some
        split: option.splits sum.splits prod.splits if_splits bool.splits)

lemma inv_hp_slot:
  "inv_hp s \<Longrightarrow> hazard_pointer (threads_hp s i) = Some k \<Longrightarrow>
     k < length (HazardPointers s) \<and> id_hp (HazardPointers s ! k) = Some i"
  by (auto simp: inv_hp_def slot_ok_def split: option.splits dest: spec [of _ i])

lemma step_hp_hps:
  assumes "inv_hp s"
  shows "hps_step i (HazardPointers s) (HazardPointers (step_hp i s))"
proof (cases "hazard_pointer (threads_hp s i)")
  case None
  show ?thesis
    by (cases "pc_hp (threads_hp s i)")
       (auto simp: step_hp_def Let_def compare_exchange_def None hps_step_refl
          HazardPointerHelper_def
          dest: retire_frame try_delete_frame
          dest!: claim_slot_Some
          intro!: hps_step_update
          split: option.splits sum.splits prod.splits if_splits bool.splits)
next
  case (Some k)
  from inv_hp_slot [OF assms Some]
  have k: "k < length (HazardPointers s)" "id_hp (HazardPointers s ! k) = Some i" by simp_all
  show ?thesis
    by (cases "pc_hp (threads_hp s i)")
       (auto simp: step_hp_def Let_def compare_exchange_def Some hps_step_refl k
          store_p_def store_id_def
          dest: retire_frame try_delete_frame
          intro!: hps_step_update
          split: option.splits sum.splits prod.splits if_splits bool.splits)
qed

lemma step_hp_free_ok:
  assumes "inv_hp s"
  shows "free_ok (HazardPointers (step_hp i s))"
proof -
  from assms have f: "free_ok (HazardPointers s)" by (simp add: inv_hp_def)
  from assms have ok: "slot_ok (HazardPointers s) i (threads_hp s i)"
    by (simp add: inv_hp_def)
  show ?thesis
  proof (cases "hazard_pointer (threads_hp s i)")
    case None
    with f show ?thesis
      by (cases "pc_hp (threads_hp s i)")
         (auto simp: step_hp_def Let_def compare_exchange_def free_ok_def
            HazardPointerHelper_def nth_list_update
            dest: retire_frame try_delete_frame
            dest!: claim_slot_Some
            split: option.splits sum.splits prod.splits if_splits bool.splits)
  next
    case (Some k)
    with f ok show ?thesis
      by (cases "pc_hp (threads_hp s i)")
         (auto simp: step_hp_def Let_def compare_exchange_def free_ok_def slot_ok_def
            store_p_def store_id_def nth_list_update
            dest: retire_frame try_delete_frame
            split: option.splits sum.splits prod.splits if_splits bool.splits)
  qed
qed

lemma step_hp_own:
  assumes "inv_hp s"
  shows "slot_ok (HazardPointers (step_hp i s)) i (threads_hp (step_hp i s) i)"
proof -
  from assms have ok: "slot_ok (HazardPointers s) i (threads_hp s i)"
    by (simp add: inv_hp_def)
  from assms have f: "free_ok (HazardPointers s)" by (simp add: inv_hp_def)
  show ?thesis
  proof (cases "hazard_pointer (threads_hp s i)")
    case None
    with ok f show ?thesis
      by (cases "pc_hp (threads_hp s i)")
         (auto simp: step_hp_def Let_def compare_exchange_def slot_ok_def free_ok_def
            HazardPointerHelper_def
            dest: retire_frame try_delete_frame
            dest!: claim_slot_Some
            split: option.splits sum.splits prod.splits if_splits bool.splits)
  next
    case (Some k)
    with ok show ?thesis
      by (cases "pc_hp (threads_hp s i)")
         (auto simp: step_hp_def Let_def compare_exchange_def slot_ok_def
            store_p_def store_id_def
            dest: retire_frame try_delete_frame
            split: option.splits sum.splits prod.splits if_splits bool.splits)
  qed
qed

lemma inv_hp_step:
  assumes "inv_hp s"
  shows "inv_hp (step_hp i s)"
proof -
  have len: "length (HazardPointers (step_hp i s)) = MaxSize"
    using assms by (simp add: step_hp_length inv_hp_def)
  have "slot_ok (HazardPointers (step_hp i s)) j (threads_hp (step_hp i s) j)" for j
  proof (cases "j = i")
    case True
    with step_hp_own [OF assms] show ?thesis by simp
  next
    case False
    from assms have ok: "slot_ok (HazardPointers s) j (threads_hp s j)"
      by (simp add: inv_hp_def)
    from step_hp_hps [OF assms, of i]
    consider "HazardPointers (step_hp i s) = HazardPointers s"
      | k y where "k < length (HazardPointers s)"
          "HazardPointers (step_hp i s) = (HazardPointers s)[k := y]"
          "id_hp (HazardPointers s ! k) = Some i \<or> id_hp (HazardPointers s ! k) = None"
      by (auto simp: hps_step_def)
    then show ?thesis
    proof cases
      case 1
      with ok False show ?thesis by (simp add: step_hp_others)
    next
      case 2
      with False have "id_hp (HazardPointers s ! k) \<noteq> Some j" by auto
      from slot_ok_frame [OF ok this] 2 False show ?thesis by (simp add: step_hp_others)
    qed
  qed
  with len step_hp_free_ok [OF assms] show ?thesis by (simp add: inv_hp_def)
qed

lemma inv_hp_call:
  assumes "inv_hp s"
  shows "inv_hp (call_hp i c s)"
proof -
  from assms have ok: "slot_ok (HazardPointers s) j (threads_hp s j)" for j
    by (simp add: inv_hp_def)
  have "slot_ok (HazardPointers (call_hp i c s)) j (threads_hp (call_hp i c s) j)" for j
    using ok [of j] ok [of i]
    by (cases c) (auto simp: call_hp_def Let_def slot_ok_def split: option.splits)
  moreover have "HazardPointers (call_hp i c s) = HazardPointers s"
    by (cases c) (simp_all add: call_hp_def Let_def)
  ultimately show ?thesis using assms by (simp add: inv_hp_def)
qed

lemma inv_hp_exec: "inv_hp s \<Longrightarrow> inv_hp (exec_hp es s)"
proof (induction es arbitrary: s)
  case Nil
  then show ?case by (simp add: exec_hp_def)
next
  case (Cons e es)
  have "inv_hp (event_hp e s)"
    using Cons.prems by (cases e) (simp_all add: inv_hp_call inv_hp_step)
  from Cons.IH [OF this] show ?case by (simp add: exec_hp_def)
qed

lemma reachable_inv_hp: "inv_hp (exec_hp es (init_hp cells))"
  by (rule inv_hp_exec [OF inv_hp_init])

lemma holders_bounded:
  assumes inv: "inv_hp s"
  shows "finite {i. hazard_pointer (threads_hp s i) \<noteq> None} \<and>
         card {i. hazard_pointer (threads_hp s i) \<noteq> None} \<le> length (HazardPointers s)"
proof -
  define H where "H = {i. hazard_pointer (threads_hp s i) \<noteq> None}"
  define f where "f = (\<lambda>i. the (hazard_pointer (threads_hp s i)))"
  define n where "n = length (HazardPointers s)"
  have slot: "f i < n \<and> id_hp (HazardPointers s ! f i) = Some i" if "i \<in> H" for i
  proof -
    from that obtain k where k: "hazard_pointer (threads_hp s i) = Some k"
      by (auto simp: H_def)
    from inv_hp_slot [OF inv k] k show ?thesis by (simp add: f_def n_def)
  qed
  have inj: "inj_on f H"
  proof (rule inj_onI)
    fix i j assume i: "i \<in> H" and j: "j \<in> H" and eq: "f i = f j"
    from slot [OF i] have "id_hp (HazardPointers s ! f j) = Some i" by (simp add: eq)
    moreover from slot [OF j] have "id_hp (HazardPointers s ! f j) = Some j" by simp
    ultimately show "i = j" by simp
  qed
  have sub: "f ` H \<subseteq> {..<n}" using slot by blast
  then have fin: "finite (f ` H)" by (rule finite_subset) simp
  with inj have finH: "finite H" by (rule finite_imageD [rotated]) 
  have "card H = card (f ` H)" using inj by (simp add: card_image)
  also have "\<dots> \<le> card {..<n}" using sub by (intro card_mono) simp_all
  finally have "card H \<le> n" by simp
  with finH show ?thesis by (simp add: H_def n_def)
qed

subsection \<open>Calls that run alone\<close>

lemma run_hp_idle: "pc_hp (threads_hp s i) = Idle_hp \<Longrightarrow> run_hp i s = Some s"
  by (subst run_hp.simps) simp

lemma run_hp_step:
  "pc_hp (threads_hp s i) \<noteq> Idle_hp \<Longrightarrow> pc_hp (threads_hp s i) \<noteq> UB_hp \<Longrightarrow>
     run_hp i s = run_hp i (step_hp i s)"
  by (subst run_hp.simps) simp

lemma run_rc_idle: "pc_rc (threads_rc s i) = Idle_rc \<Longrightarrow> run_rc i s = Some s"
  by (subst run_rc.simps) simp

lemma run_rc_step:
  "pc_rc (threads_rc s i) \<noteq> Idle_rc \<Longrightarrow> pc_rc (threads_rc s i) \<noteq> UB_rc \<Longrightarrow>
     run_rc i s = run_rc i (step_rc i s)"
  by (subst run_rc.simps) simp

lemma set_thread_rc_simps [simp]:
  "threads_rc (set_thread_rc i th s) = (threads_rc s)(i := th)"
  "head_rc (set_thread_rc i th s) = head_rc s"
  "nodes_rc (set_thread_rc i th s) = nodes_rc s"
  "heap_rc (set_thread_rc i th s) = heap_rc s"
  by (simp_all add: set_thread_rc_def)

lemma leave_rc_simps [simp]:
  "threads_rc (leave_rc i r s) = (threads_rc s)(i := (threads_rc s i)\<lparr>pc_rc := Idle_rc, in_destructor := False, outcomes_rc := outcomes_rc (threads_rc s i) @ [r]\<rparr>)"
  "head_rc (leave_rc i r s) = head_rc s"
  "nodes_rc (leave_rc i r s) = nodes_rc s"
  "heap_rc (leave_rc i r s) = heap_rc s"
  by (simp_all add: leave_rc_def)

lemma push_hp_seq:
  assumes "pc_hp (threads_hp s i) = Idle_hp"
  shows "\<exists>s'. do_hp i (Push x) s = Some s' \<and>
     HazardPointers s' = HazardPointers s \<and> to_delete_list s' = to_delete_list s \<and>
     pc_hp (threads_hp s' i) = Idle_hp \<and>
     hazard_pointer (threads_hp s' i) = hazard_pointer (threads_hp s i) \<and>
     (if capacity (heap_hp s) = 0
      then outcomes_hp (threads_hp s' i) = outcomes_hp (threads_hp s i) @ [Threw bad_alloc] \<and>
           head_hp s' = head_hp s \<and> nodes_hp s' = nodes_hp s \<and> heap_hp s' = heap_hp s
      else outcomes_hp (threads_hp s' i) = outcomes_hp (threads_hp s i) @ [Returned_void] \<and>
           head_hp s' = Some (next_addr (heap_hp s)) \<and>
           nodes_hp s' = (nodes_hp s)(next_addr (heap_hp s) \<mapsto>
                            \<lparr>v_hp = Some x, next_hp = head_hp s\<rparr>))"
proof (cases "capacity (heap_hp s) = 0")
  case True
  with assms show ?thesis
    by (simp add: do_hp_def call_hp_def run_hp_step run_hp_idle step_hp_def operator_new_def)
next
  case False
  with assms show ?thesis
    by (simp add: do_hp_def call_hp_def run_hp_step run_hp_idle step_hp_def operator_new_def
        compare_exchange_def)
qed

lemma push_rc_seq:
  assumes "pc_rc (threads_rc s i) = Idle_rc"
  shows "\<exists>s'. do_rc i (Push x) s = Some s' \<and>
     (if capacity (heap_rc s) = 0
      then outcomes_rc (threads_rc s' i) = outcomes_rc (threads_rc s i) @ [Threw bad_alloc] \<and>
           head_rc s' = head_rc s \<and> nodes_rc s' = nodes_rc s \<and> heap_rc s' = heap_rc s
      else outcomes_rc (threads_rc s' i) = outcomes_rc (threads_rc s i) @ [Returned_void] \<and>
           head_rc s' = \<lparr>external_cnt = 1, p_rc = Some (next_addr (heap_rc s))\<rparr> \<and>
           nodes_rc s' = (nodes_rc s)(next_addr (heap_rc s) \<mapsto>
                            \<lparr>v_rc = Some x, inner_cnt = 0, next_rc = head_rc s\<rparr>))"
proof (cases "capacity (heap_rc s) = 0")
  case True
  with assms show ?thesis
    by (simp add: do_rc_def call_rc_def run_rc_step run_rc_idle step_rc_def operator_new_def)
next
  case False
  with assms show ?thesis
    by (simp add: do_rc_def call_rc_def run_rc_step run_rc_idle step_rc_def operator_new_def
        compare_exchange_def)
qed

lemma store_p_same: "p_hp (hps ! k) = ptr \<Longrightarrow> store_p k ptr hps = hps"
proof (cases "k < length hps")
  case True
  assume "p_hp (hps ! k) = ptr"
  then have "(hps ! k)\<lparr>p_hp := ptr\<rparr> = hps ! k" by (cases "hps ! k") auto
  then show ?thesis by (simp add: store_p_def)
next
  case False
  then show ?thesis by (simp add: store_p_def list_update_beyond)
qed

lemma store_p_length [simp]: "length (store_p k ptr hps) = length hps"
  by (simp add: store_p_def)

lemma store_p_nth:
  "store_p k ptr hps ! j = (if j = k \<and> k < length hps then (hps ! k)\<lparr>p_hp := ptr\<rparr> else hps ! j)"
  by (cases "k < length hps") (auto simp: store_p_def nth_list_update list_update_beyond)

lemma pop_hp_exhausted:
  assumes "pc_hp (threads_hp s i) = Idle_hp" and "hazard_pointer (threads_hp s i) = None"
    and "list_all (\<lambda>x. id_hp x \<noteq> None) (HazardPointers s)"
  shows "do_hp i Pop s =
           Some (leave_hp i (Threw (runtime_error ''No hazard pointers available'')) s)"
proof -
  from assms(3) have "claim_slot i (HazardPointers s) = None" by (simp add: claim_slot_None)
  with assms(1,2) show ?thesis
    by (simp add: do_hp_def call_hp_def run_hp_step run_hp_idle step_hp_def
        HazardPointerHelper_def leave_hp_def set_thread_hp_def)
qed

lemma pop_empty_hp_slot:
  assumes "head_hp s = None" and "pc_hp (threads_hp s i) = Idle_hp"
    and "hazard_pointer (threads_hp s i) = Some k"
  shows "\<exists>s'. do_hp i Pop s = Some s' \<and>
     HazardPointers s' = store_p k None (store_p k None (HazardPointers s)) \<and>
     head_hp s' = None \<and> nodes_hp s' = nodes_hp s \<and> to_delete_list s' = to_delete_list s \<and>
     heap_hp s' = heap_hp s \<and>
     (\<forall>j. j \<noteq> i \<longrightarrow> threads_hp s' j = threads_hp s j) \<and>
     pc_hp (threads_hp s' i) = Idle_hp \<and> hazard_pointer (threads_hp s' i) = Some k \<and>
     outcomes_hp (threads_hp s' i) = outcomes_hp (threads_hp s i) @ [Returned None]"
  using assms
  by (simp add: do_hp_def call_hp_def run_hp_step run_hp_idle step_hp_def Let_def)

lemma pop_empty_hp_claim:
  assumes "head_hp s = None" and "pc_hp (threads_hp s i) = Idle_hp"
    and "hazard_pointer (threads_hp s i) = None"
    and "claim_slot i (HazardPointers s) = Some (k, hps)"
  shows "\<exists>s'. do_hp i Pop s = Some s' \<and>
     HazardPointers s' = store_p k None (store_p k None hps) \<and>
     head_hp s' = None \<and> nodes_hp s' = nodes_hp s \<and> to_delete_list s' = to_delete_list s \<and>
     heap_hp s' = heap_hp s \<and>
     (\<forall>j. j \<noteq> i \<longrightarrow> threads_hp s' j = threads_hp s j) \<and>
     pc_hp (threads_hp s' i) = Idle_hp \<and> hazard_pointer (threads_hp s' i) = Some k \<and>
     outcomes_hp (threads_hp s' i) = outcomes_hp (threads_hp s i) @ [Returned None]"
  using assms
  by (simp add: do_hp_def call_hp_def run_hp_step run_hp_idle step_hp_def Let_def
      HazardPointerHelper_def)

lemma pop_empty_hp:
  assumes "head_hp s = None" and "pc_hp (threads_hp s i) = Idle_hp"
    and "hazard_pointer (threads_hp s i) \<noteq> None \<or>
         \<not> list_all (\<lambda>x. id_hp x \<noteq> None) (HazardPointers s)"
  shows "\<exists>s'. do_hp i Pop s = Some s' \<and>
     outcomes_hp (threads_hp s' i) = outcomes_hp (threads_hp s i) @ [Returned None] \<and>
     pc_hp (threads_hp s' i) = Idle_hp \<and> hazard_pointer (threads_hp s' i) \<noteq> None \<and>
     head_hp s' = None \<and> nodes_hp s' = nodes_hp s \<and> to_delete_list s' = to_delete_list s \<and>
     heap_hp s' = heap_hp s"
proof (cases "hazard_pointer (threads_hp s i)")
  case (Some k)
  from pop_empty_hp_slot [OF assms(1,2) Some] show ?thesis by auto
next
  case None
  with assms(3) have "claim_slot i (HazardPointers s) \<noteq> None" by (simp add: claim_slot_None)
  then obtain k hps where "claim_slot i (HazardPointers s) = Some (k, hps)" by auto
  from pop_empty_hp_claim [OF assms(1,2) None this] show ?thesis by auto
qed

lemma pop_empty_rc:
  assumes "p_rc (head_rc s) = None" and "pc_rc (threads_rc s i) = Idle_rc"
  shows "\<exists>s'. do_rc i Pop s = Some s' \<and>
     outcomes_rc (threads_rc s' i) = outcomes_rc (threads_rc s i) @ [Returned None] \<and>
     pc_rc (threads_rc s' i) = Idle_rc \<and>
     head_rc s' = \<lparr>external_cnt = external_cnt (head_rc s) + 1, p_rc = None\<rparr> \<and>
     nodes_rc s' = nodes_rc s \<and> heap_rc s' = heap_rc s"
  using assms
  by (simp add: do_rc_def call_rc_def run_rc_step run_rc_idle step_rc_def Let_def
      compare_exchange_def pop_return_rc_def)

lemma pops_empty_hp:
  assumes "head_hp s = None" and "pc_hp (threads_hp s i) = Idle_hp"
    and "hazard_pointer (threads_hp s i) \<noteq> None \<or>
         \<not> list_all (\<lambda>x. id_hp x \<noteq> None) (HazardPointers s)"
  shows "\<exists>s'. seq_hp (replicate n (i, Pop)) s = Some s' \<and>
     outcomes_hp (threads_hp s' i) = outcomes_hp (threads_hp s i) @ replicate n (Returned None) \<and>
     head_hp s' = None \<and> nodes_hp s' = nodes_hp s \<and> to_delete_list s' = to_delete_list s \<and>
     heap_hp s' = heap_hp s"
  using assms
proof (induction n arbitrary: s)
  case 0
  then show ?case by simp
next
  case (Suc n)
  from pop_empty_hp [OF Suc.prems] obtain s1 where
    s1: "do_hp i Pop s = Some s1"
      "outcomes_hp (threads_hp s1 i) = outcomes_hp (threads_hp s i) @ [Returned None]"
      "pc_hp (threads_hp s1 i) = Idle_hp" "hazard_pointer (threads_hp s1 i) \<noteq> None"
      "head_hp s1 = None" "nodes_hp s1 = nodes_hp s" "to_delete_list s1 = to_delete_list s"
      "heap_hp s1 = heap_hp s"
    by blast
  from Suc.IH [of s1] s1 obtain s' where
    "seq_hp (replicate n (i, Pop)) s1 = Some s'"
    "outcomes_hp (threads_hp s' i) = outcomes_hp (threads_hp s1 i) @ replicate n (Returned None)"
    "head_hp s' = None" "nodes_hp s' = nodes_hp s1" "to_delete_list s' = to_delete_list s1"
    "heap_hp s' = heap_hp s1"
    by blast
  with s1 show ?case by (simp add: replicate_app_Cons_same)
qed

lemma pops_empty_rc:
  assumes "p_rc (head_rc s) = None" and "pc_rc (threads_rc s i) = Idle_rc"
  shows "\<exists>s'. seq_rc (replicate n (i, Pop)) s = Some s' \<and>
     outcomes_rc (threads_rc s' i) = outcomes_rc (threads_rc s i) @ replicate n (Returned None) \<and>
     head_rc s' = \<lparr>external_cnt = external_cnt (head_rc s) + of_nat n, p_rc = None\<rparr> \<and>
     nodes_rc s' = nodes_rc s \<and> heap_rc s' = heap_rc s"
  using assms
proof (induction n arbitrary: s)
  case 0
  then show ?case by simp
next
  case (Suc n)
  from pop_empty_rc [OF Suc.prems] obtain s1 where
    s1: "do_rc i Pop s = Some s1"
      "outcomes_rc (threads_rc s1 i) = outcomes_rc (threads_rc s i) @ [Returned None]"
      "pc_rc (threads_rc s1 i) = Idle_rc"
      "head_rc s1 = \<lparr>external_cnt = external_cnt (head_rc s) + 1, p_rc = None\<rparr>"
      "nodes_rc s1 = nodes_rc s" "heap_rc s1 = heap_rc s"
    by blast
  from Suc.IH [of s1] s1 obtain s' where
    "seq_rc (replicate n (i, Pop)) s1 = Some s'"
    "outcomes_rc (threads_rc s' i) = outcomes_rc (threads_rc s1 i) @ replicate n (Returned None)"
    "head_rc s' = \<lparr>external_cnt = external_cnt (head_rc s1) + of_nat n, p_rc = None\<rparr>"
    "nodes_rc s' = nodes_rc s1" "heap_rc s' = heap_rc s1"
    by auto
  with s1 show ?case by (simp add: replicate_app_Cons_same add.assoc)
qed

lemma seq_hp_append:
  "seq_hp (cs @ ds) s = (case seq_hp cs s of None \<Rightarrow> None | Some s' \<Rightarrow> seq_hp ds s')"
  by (induction cs arbitrary: s) (auto split: option.splits)

lemma claim_slot_first:
  "claim_slot me hps = Some (j, hps') \<Longrightarrow> m < j \<Longrightarrow> id_hp (hps ! m) \<noteq> None"
proof (induction hps arbitrary: j hps' m)
  case Nil
  then show ?case by simp
next
  case (Cons x xs)
  show ?case
  proof (cases "id_hp x = None")
    case True
    with Cons.prems show ?thesis by simp
  next
    case False
    with Cons.prems obtain j' ys where c: "claim_slot me xs = Some (j', ys)" and j: "j = Suc j'"
      by (auto split: option.splits)
    show ?thesis
    proof (cases m)
      case 0
      with False show ?thesis by simp
    next
      case (Suc m')
      with Cons.prems j have "m' < j'" by simp
      from Cons.IH [OF c this] Suc show ?thesis by simp
    qed
  qed
qed

lemma claimed_upto_init: "claimed_upto 0 (init_hp cells)"
  by (simp add: claimed_upto_def init_hp_def HazardPointers_init_def thread_init_hp_def)

lemma claimed_upto_step:
  assumes P: "claimed_upto k s" and k: "k < MaxSize"
  shows "\<exists>s'. do_hp k Pop s = Some s' \<and> claimed_upto (Suc k) s' \<and> heap_hp s' = heap_hp s \<and>
           outcomes_hp (threads_hp s' k) = [Returned None]"
proof -
  from P have head: "head_hp s = None" and idle: "pc_hp (threads_hp s k) = Idle_hp"
    and none: "hazard_pointer (threads_hp s k) = None"
    and len: "length (HazardPointers s) = MaxSize"
    and ids: "\<And>j. j < MaxSize \<Longrightarrow> (id_hp (HazardPointers s ! j) = None) = (k \<le> j)"
    and out: "outcomes_hp (threads_hp s k) = []"
    by (simp_all add: claimed_upto_def)
  from ids [OF k] have free: "id_hp (HazardPointers s ! k) = None" by simp
  have "claim_slot k (HazardPointers s) \<noteq> None"
  proof
    assume "claim_slot k (HazardPointers s) = None"
    then have "list_all (\<lambda>x. id_hp x \<noteq> None) (HazardPointers s)"
      by (simp add: claim_slot_None)
    with k len free show False by (auto simp: list_all_length)
  qed
  then obtain j hps where c: "claim_slot k (HazardPointers s) = Some (j, hps)" by auto
  from claim_slot_Some [OF c] have j: "j < length (HazardPointers s)"
    "id_hp (HazardPointers s ! j) = None"
    "hps = (HazardPointers s)[j := (HazardPointers s ! j)\<lparr>id_hp := Some k\<rparr>]"
    by simp_all
  have "j = k"
  proof (rule ccontr)
    assume "j \<noteq> k"
    with ids [of j] j len have "k < j" by simp
    from claim_slot_first [OF c this] free show False by simp
  qed
  from pop_empty_hp_claim [OF head idle none c] obtain s' where
    s': "do_hp k Pop s = Some s'"
      "HazardPointers s' = store_p j None (store_p j None hps)"
      "head_hp s' = None" "heap_hp s' = heap_hp s"
      "\<And>m. m \<noteq> k \<Longrightarrow> threads_hp s' m = threads_hp s m"
      "pc_hp (threads_hp s' k) = Idle_hp"
      "outcomes_hp (threads_hp s' k) = outcomes_hp (threads_hp s k) @ [Returned None]"
    by blast
  have ids': "(id_hp (HazardPointers s' ! m) = None) = (Suc k \<le> m)" if "m < MaxSize" for m
    using that ids [of m] len \<open>j = k\<close> k
    by (auto simp: s'(2) j(3) store_p_nth nth_list_update)
  have "pc_hp (threads_hp s' m) = Idle_hp" for m
    using P s'(5) [of m] s'(6) by (cases "m = k") (simp_all add: claimed_upto_def)
  moreover have "hazard_pointer (threads_hp s' m) = None \<and> outcomes_hp (threads_hp s' m) = []"
    if "Suc k \<le> m" for m
    using that P s'(5) [of m] by (simp add: claimed_upto_def)
  ultimately have "claimed_upto (Suc k) s'"
    using ids' s'(2,3) len j(3) by (simp add: claimed_upto_def)
  with s'(1,4,7) out show ?thesis by simp
qed

lemma claimed_upto_pops:
  "k \<le> MaxSize \<Longrightarrow>
     \<exists>s. seq_hp (map (\<lambda>j. (j, Pop)) [0..<k]) (init_hp cells :: 'a state_hp) = Some s \<and>
         claimed_upto k s \<and>
         heap_hp s = \<lparr>next_addr = 0, capacity = cells, freed = []\<rparr>"
proof (induction k)
  case 0
  then show ?case by (simp add: claimed_upto_init) (simp add: init_hp_def)
next
  case (Suc k)
  then obtain s where
    s: "seq_hp (map (\<lambda>j. (j, Pop)) [0..<k]) (init_hp cells :: 'a state_hp) = Some s"
    "claimed_upto k s" "heap_hp s = \<lparr>next_addr = 0, capacity = cells, freed = []\<rparr>"
    by auto
  from Suc.prems have "k < MaxSize" by simp
  from claimed_upto_step [OF s(2) this] s show ?case
    by (auto simp: seq_hp_append)
qed

lemma claimed_upto_full:
  assumes "claimed_upto MaxSize s"
  shows "list_all (\<lambda>x. id_hp x \<noteq> None) (HazardPointers s)"
  using assms by (simp add: claimed_upto_def list_all_length)

lemma stack_rc_Cons:
  "stack_rc ns r (ax # rest) =
     (\<exists>n. p_rc r = Some (fst ax) \<and> ns (fst ax) = Some n \<and> v_rc n = Some (snd ax) \<and>
          stack_rc ns (next_rc n) rest)"
  by (cases "ns (fst ax)") simp_all

lemma delete_Node_rc_simps [simp]:
  "threads_rc (delete_Node_rc a s) = threads_rc s"
  "head_rc (delete_Node_rc a s) = head_rc s"
  "nodes_rc (delete_Node_rc a s) = (nodes_rc s)(a := None)"
  by (simp_all add: delete_Node_rc_def)

subsection \<open>Auxiliary facts about the reference counts\<close>

lemma w_unat_of_nat: "h < 4294967296 \<Longrightarrow> unat (of_nat h :: 32 word) = h"
  by (simp add: unat_of_nat)

lemma w_of_nat_0:
  assumes "h < 4294967296"
  shows "((of_nat h :: 32 word) = 0) = (h = 0)"
proof
  assume "(of_nat h :: 32 word) = 0"
  then have "unat (of_nat h :: 32 word) = 0" by simp
  with w_unat_of_nat [OF assms] show "h = 0" by simp
next
  assume "h = 0" then show "(of_nat h :: 32 word) = 0" by simp
qed

lemma w_of_nat_1:
  assumes "h < 4294967296"
  shows "((of_nat h :: 32 word) = 1) = (h = 1)"
proof
  assume "(of_nat h :: 32 word) = 1"
  then have "unat (of_nat h :: 32 word) = 1" by simp
  with w_unat_of_nat [OF assms] show "h = 1" by simp
next
  assume "h = 1" then show "(of_nat h :: 32 word) = 1" by simp
qed

lemma w_neg_bound:
  assumes "unat (- w :: 32 word) \<le> k" "k < 4294967295"
  shows "w \<noteq> 1"
proof
  assume "w = 1"
  define m where "m = unat (- 1 :: 32 word)"
  have m: "m \<le> k" using assms(1) \<open>w = 1\<close> by (simp add: m_def)
  have "(of_nat m :: 32 word) = - 1" unfolding m_def by simp
  then have "(of_nat (Suc m) :: 32 word) = 0" by simp
  moreover have "Suc m < 4294967296" using m assms(2) by simp
  ultimately have "Suc m = 0" using w_of_nat_0 [of "Suc m"] by blast
  then show False by simp
qed

lemma w_neg_pred: "unat (- (w - 1) :: 32 word) \<le> Suc (unat (- w))"
proof -
  have "- (w - 1) = - w + 1" by simp
  then have "unat (- (w - 1)) = unat (- w + 1)" by (rule arg_cong)
  also have "\<dots> = (unat (- w) + unat (1 :: 32 word)) mod 2 ^ LENGTH(32)"
    by (rule unat_word_ariths(1))
  also have "\<dots> \<le> unat (- w) + unat (1 :: 32 word)" by (rule mod_less_eq_dividend)
  finally show ?thesis by simp
qed

lemma w_eq_neg: "(a = - (c :: 32 word)) = (a + c = 0)"
  by (simp add: eq_neg_iff_add_eq_0)

lemma linked_rc_Cons:
  "linked_rc K ns r (a # as) =
     (p_rc r = Some a \<and> (\<exists>n. ns a = Some n \<and> K a (external_cnt r) n \<and> linked_rc K ns (next_rc n) as))"
  by (cases "ns a") simp_all

declare linked_rc.simps(2) [simp del]

lemma linked_rc_mono:
  assumes "linked_rc K ns r as"
    and "\<And>a e n. a \<in> set as \<Longrightarrow> ns a = Some n \<Longrightarrow> K a e n \<Longrightarrow>
           \<exists>n'. ns' a = Some n' \<and> next_rc n' = next_rc n \<and> K' a e n'"
  shows "linked_rc K' ns' r as"
  using assms
proof (induction as arbitrary: r)
  case Nil
  then show ?case by simp
next
  case (Cons a as)
  from Cons.prems(1) obtain n where n: "p_rc r = Some a" "ns a = Some n" "K a (external_cnt r) n"
    "linked_rc K ns (next_rc n) as"
    unfolding linked_rc_Cons by blast
  from Cons.prems(2) [of a n "external_cnt r"] n(2,3) obtain n' where
    n': "ns' a = Some n'" "next_rc n' = next_rc n" "K' a (external_cnt r) n'"
    by fastforce
  have "linked_rc K' ns' (next_rc n) as"
  proof (rule Cons.IH [OF n(4)])
    fix b e m assume "b \<in> set as" "ns b = Some m" "K b e m"
    then show "\<exists>n'. ns' b = Some n' \<and> next_rc n' = next_rc m \<and> K' b e n'"
      using Cons.prems(2) [of b m e] by simp
  qed
  with n(1) n' show ?case by (simp add: linked_rc_Cons)
qed

lemma linked_rc_member:
  "linked_rc K ns r as \<Longrightarrow> a \<in> set as \<Longrightarrow> \<exists>e n. ns a = Some n \<and> K a e n"
proof (induction as arbitrary: r)
  case Nil
  then show ?case by simp
next
  case (Cons b as)
  from Cons.prems(1) obtain n where n: "ns b = Some n" "K b (external_cnt r) n"
    "linked_rc K ns (next_rc n) as"
    unfolding linked_rc_Cons by blast
  show ?case
  proof (cases "a = b")
    case True
    with n show ?thesis by blast
  next
    case False
    with Cons.prems(2) have "a \<in> set as" by simp
    from Cons.IH [OF n(3) this] show ?thesis .
  qed
qed

lemma linked_rc_head_Some:
  assumes "linked_rc K ns r as" and "p_rc r = Some a"
  shows "\<exists>rest n. as = a # rest \<and> ns a = Some n \<and> K a (external_cnt r) n \<and>
        linked_rc K ns (next_rc n) rest"
proof (cases as)
  case Nil
  with assms show ?thesis by simp
next
  case (Cons b rest)
  with assms have "b = a" by (simp add: linked_rc_Cons)
  with assms(1) Cons show ?thesis by (simp add: linked_rc_Cons)
qed

lemma linked_rc_head_None: "linked_rc K ns r as \<Longrightarrow> p_rc r = None \<Longrightarrow> as = []"
  by (cases as) (simp_all add: linked_rc_Cons)

lemma holders_upd:
  "holders (ro(i := x)) a = (if x = Holds a then insert i (holders ro a) else holders ro a - {i})"
  by (auto simp: holders_def)

lemma winners_upd:
  "winners (ro(i := x)) a = (if x = Wins a then insert i (winners ro a) else winners ro a - {i})"
  by (auto simp: winners_def)

lemma owners_upd:
  "owners (ro(i := x)) a = (if x = Owns a then insert i (owners ro a) else owners ro a - {i})"
  by (auto simp: owners_def)

lemma holders_frame:
  "role_node (ro i) \<noteq> Some a \<Longrightarrow> role_node x \<noteq> Some a \<Longrightarrow> holders (ro(i := x)) a = holders ro a"
  by (auto simp: holders_def)

lemma winners_frame:
  "role_node (ro i) \<noteq> Some a \<Longrightarrow> role_node x \<noteq> Some a \<Longrightarrow> winners (ro(i := x)) a = winners ro a"
  by (auto simp: winners_def)

lemma owners_frame:
  "role_node (ro i) \<noteq> Some a \<Longrightarrow> role_node x \<noteq> Some a \<Longrightarrow> owners (ro(i := x)) a = owners ro a"
  by (auto simp: owners_def)

lemma holders_bound:
  assumes "rc_bound k ro"
  shows "finite (holders ro a)" and "card (holders ro a) \<le> k" and "card (holders ro a) < 4294967295"
proof -
  have sub: "holders ro a \<subseteq> rc_busy ro" by (auto simp: holders_def rc_busy_def)
  from assms have f: "finite (rc_busy ro)" and c: "card (rc_busy ro) \<le> k" and k: "k < 4294967295"
    by (simp_all add: rc_bound_def)
  from sub f show "finite (holders ro a)" by (rule finite_subset)
  from card_mono [OF f sub] c show "card (holders ro a) \<le> k" by simp
  with k show "card (holders ro a) < 4294967295" by simp
qed

lemma rc_bound_mono: "rc_bound k ro \<Longrightarrow> k \<le> k' \<Longrightarrow> k' < 4294967295 \<Longrightarrow> rc_bound k' ro"
  by (simp add: rc_bound_def)

lemma rc_bound_step:
  assumes "rc_bound k ro" and "Suc k < 4294967295" and "x \<noteq> Bad"
  shows "rc_bound (Suc k) (ro(i := x))"
proof -
  from assms(1) have f: "finite (rc_busy ro)" and c: "card (rc_busy ro) \<le> k" and b: "\<forall>j. ro j \<noteq> Bad"
    by (simp_all add: rc_bound_def)
  have sub: "rc_busy (ro(i := x)) \<subseteq> insert i (rc_busy ro)" by (auto simp: rc_busy_def)
  from f have fi: "finite (insert i (rc_busy ro))" by simp
  from sub fi have f': "finite (rc_busy (ro(i := x)))" by (rule finite_subset)
  have "card (rc_busy (ro(i := x))) \<le> card (insert i (rc_busy ro))" using fi sub by (rule card_mono)
  also have "\<dots> \<le> Suc (card (rc_busy ro))" by (rule card_insert_le_m1) simp_all
  finally have "card (rc_busy (ro(i := x))) \<le> Suc k" using c by simp
  with f' b assms(2,3) show ?thesis by (simp add: rc_bound_def)
qed

lemma linked_ok_frame:
  assumes "linked_ok k ro a e n" and "role_node (ro i) \<noteq> Some a" and "role_node x \<noteq> Some a" and "k \<le> k'"
  shows "linked_ok k' (ro(i := x)) a e n"
  using assms(1,4) holders_frame [where ro = ro and i = i, OF assms(2,3)] winners_frame [where ro = ro and i = i, OF assms(2,3)] owners_frame [where ro = ro and i = i, OF assms(2,3)]
  by (simp add: linked_ok_def)

lemma linked_ok_mono: "linked_ok k ro a e n \<Longrightarrow> k \<le> k' \<Longrightarrow> linked_ok k' ro a e n"
  by (simp add: linked_ok_def)

lemma detached_ok_we:
  assumes "detached_ok k ro we a n" and "k \<le> k'"
    and "\<And>j. j \<in> winners ro a \<or> j \<in> owners ro a \<Longrightarrow> we' j = we j"
  shows "detached_ok k' ro we' a n"
proof -
  from assms(1) consider
      (P) i where "owners ro a = {i}" "we i = 1" "winners ro a = {}" "holders ro a = {}" "inner_cnt n = 0"
    | (D1) i where "owners ro a = {}" "winners ro a = {i}"
        "we i + inner_cnt n = 2 + of_nat (card (holders ro a))" "unat (- inner_cnt n) \<le> k"
    | (D2) "owners ro a = {}" "winners ro a = {}" "inner_cnt n = of_nat (card (holders ro a))" "holders ro a \<noteq> {}"
    unfolding detached_ok_def by blast
  then show ?thesis
  proof cases
    case P
    from P(1) assms(3) [of i] have "we' i = we i" by simp
    with P show ?thesis unfolding detached_ok_def by simp
  next
    case D1
    from D1(2) assms(3) [of i] have "we' i = we i" by simp
    with D1 assms(2) show ?thesis unfolding detached_ok_def by simp
  next
    case D2
    then show ?thesis unfolding detached_ok_def by simp
  qed
qed

lemma detached_ok_roles:
  assumes "detached_ok k ro we a n"
    and "holders ro' a = holders ro a" and "winners ro' a = winners ro a" and "owners ro' a = owners ro a"
  shows "detached_ok k ro' we a n"
  using assms by (simp add: detached_ok_def)

lemma detached_ok_frame:
  assumes "detached_ok k ro we a n" and "role_node (ro i) \<noteq> Some a" and "role_node x \<noteq> Some a" and "k \<le> k'"
    and "\<And>j. j \<noteq> i \<Longrightarrow> we' j = we j"
  shows "detached_ok k' (ro(i := x)) we' a n"
proof -
  have "detached_ok k' ro we' a n"
  proof (rule detached_ok_we [OF assms(1,4)])
    fix j assume "j \<in> winners ro a \<or> j \<in> owners ro a"
    with assms(2) have "j \<noteq> i" by (auto simp: winners_def owners_def)
    then show "we' j = we j" by (rule assms(5))
  qed
  then show ?thesis
    using holders_frame [where ro = ro and i = i, OF assms(2,3)] winners_frame [where ro = ro and i = i, OF assms(2,3)] owners_frame [where ro = ro and i = i, OF assms(2,3)]
    by (rule detached_ok_roles)
qed

lemma linked_ok_Suc: "linked_ok k ro a e n \<Longrightarrow> linked_ok (Suc k) ro a e n"
  by (simp add: linked_ok_def)

lemma detached_ok_Suc: "detached_ok k ro we a n \<Longrightarrow> detached_ok (Suc k) ro we a n"
  by (erule detached_ok_we) simp_all

lemma role_node_neq: "role_node r \<noteq> Some a \<Longrightarrow> r \<noteq> Holds a \<and> r \<noteq> Wins a \<and> r \<noteq> Owns a"
  by auto

lemma role_node_eq: "role_node r = Some a \<Longrightarrow> r = Holds a \<or> r = Wins a \<or> r = Owns a"
  by (cases r) simp_all

lemma no_target:
  assumes "\<And>j. role_node (ro j) \<noteq> Some a"
  shows "holders ro a = {}" and "winners ro a = {}" and "owners ro a = {}"
  using role_node_neq [OF assms] by (auto simp: holders_def winners_def owners_def)

lemma rc_live_upd: "rc_live ro ns \<Longrightarrow> rc_live ro (ns(a \<mapsto> n'))"
  by (simp add: rc_live_def)

lemma rc_live_keep:
  assumes "rc_live ro ns" and "\<And>b. ns b \<noteq> None \<Longrightarrow> ns' b \<noteq> None"
    and "\<And>a. role_node x = Some a \<Longrightarrow> ns' a \<noteq> None"
  shows "rc_live (ro(i := x)) ns'"
  unfolding rc_live_def
proof (intro allI impI)
  fix a j assume n: "ns' a = None"
  show "role_node ((ro(i := x)) j) \<noteq> Some a"
  proof (cases "j = i")
    case True
    with assms(3) [of a] n show ?thesis by auto
  next
    case False
    have "ns a = None"
    proof (rule ccontr)
      assume "ns a \<noteq> None"
      from assms(2) [OF this] n show False by simp
    qed
    with assms(1) have "role_node (ro j) \<noteq> Some a" by (simp add: rc_live_def)
    with False show ?thesis by simp
  qed
qed

lemma rc_live_delete:
  assumes "rc_live ro ns" and "\<And>j. j \<noteq> i \<Longrightarrow> role_node (ro j) \<noteq> Some a" and "role_node x = None"
  shows "rc_live (ro(i := x)) (ns(a := None))"
  unfolding rc_live_def
proof (intro allI impI)
  fix b j assume n: "(ns(a := None)) b = None"
  show "role_node ((ro(i := x)) j) \<noteq> Some b"
  proof (cases "j = i")
    case True
    with assms(3) show ?thesis by simp
  next
    case False
    show ?thesis
    proof (cases "b = a")
      case True
      with False assms(2) [of j] show ?thesis by simp
    next
      case nb: False
      with n have "ns b = None" by simp
      with assms(1) have "role_node (ro j) \<noteq> Some b" by (simp add: rc_live_def)
      with False show ?thesis by simp
    qed
  qed
qed

lemma heap_ok_upd:
  assumes "heap_ok ns hp" and "ns a = Some n"
  shows "heap_ok (ns(a \<mapsto> n')) hp"
proof -
  from assms(1) have d: "distinct (freed hp)"
    and e: "\<And>b. (ns b = None) = (b \<in> set (freed hp) \<or> next_addr hp \<le> b)"
    and l: "\<forall>b \<in> set (freed hp). b < next_addr hp"
    by (simp_all add: heap_ok_def)
  have "((ns(a \<mapsto> n')) b = None) = (b \<in> set (freed hp) \<or> next_addr hp \<le> b)" for b
    using e [of b] assms(2) by (cases "b = a") simp_all
  with d l show ?thesis by (simp add: heap_ok_def)
qed

lemma heap_ok_new:
  assumes "heap_ok ns hp" and "operator_new hp = Some (a, hp')"
  shows "heap_ok (ns(a \<mapsto> n)) hp'" and "ns a = None"
proof -
  from assms(1) have d: "distinct (freed hp)"
    and e: "\<And>b. (ns b = None) = (b \<in> set (freed hp) \<or> next_addr hp \<le> b)"
    and l: "\<forall>b \<in> set (freed hp). b < next_addr hp"
    by (simp_all add: heap_ok_def)
  from assms(2) have a: "a = next_addr hp"
    and hp': "hp' = hp\<lparr>next_addr := Suc (next_addr hp), capacity := capacity hp - 1\<rparr>"
    by (auto simp: operator_new_def split: if_splits)
  from e [of a] a show "ns a = None" by simp
  have "((ns(a \<mapsto> n)) b = None) = (b \<in> set (freed hp') \<or> next_addr hp' \<le> b)" for b
  proof (cases "b = a")
    case True
    with a l show ?thesis by (auto simp: hp')
  next
    case False
    with e [of b] a show ?thesis by (auto simp: hp')
  qed
  moreover have "distinct (freed hp')" using d by (simp add: hp')
  moreover have "\<forall>b \<in> set (freed hp'). b < next_addr hp'" using l by (auto simp: hp')
  ultimately show "heap_ok (ns(a \<mapsto> n)) hp'" by (simp add: heap_ok_def)
qed

lemma heap_ok_delete:
  assumes "heap_ok ns hp" and "ns a = Some n"
  shows "heap_ok (ns(a := None)) (operator_delete a hp)"
proof -
  from assms(1) have d: "distinct (freed hp)"
    and e: "\<And>b. (ns b = None) = (b \<in> set (freed hp) \<or> next_addr hp \<le> b)"
    and l: "\<forall>b \<in> set (freed hp). b < next_addr hp"
    by (simp_all add: heap_ok_def)
  from e [of a] assms(2) have a: "a \<notin> set (freed hp)" "a < next_addr hp" by auto
  have "((ns(a := None)) b = None) =
        (b \<in> set (freed (operator_delete a hp)) \<or> next_addr (operator_delete a hp) \<le> b)" for b
    using e [of b] by (cases "b = a") (simp_all add: operator_delete_def)
  moreover have "distinct (freed (operator_delete a hp))"
    using d a by (simp add: operator_delete_def)
  moreover have "\<forall>b \<in> set (freed (operator_delete a hp)). b < next_addr (operator_delete a hp)"
    using l a by (simp add: operator_delete_def)
  ultimately show ?thesis by (simp add: heap_ok_def)
qed

lemma rc_shape_we:
  assumes "rc_shape k ro we ns h0" and "k \<le> k'"
    and "\<And>j a. ro j = Wins a \<or> ro j = Owns a \<Longrightarrow> we' j = we j"
    and "h0' = h0 \<or> (p_rc h0 = None \<and> p_rc h0' = None)"
  shows "rc_shape k' ro we' ns h0'"
proof -
  from assms(1) obtain as where as: "distinct as" "linked_rc (linked_ok k ro) ns h0 as"
    "\<forall>a n. ns a = Some n \<longrightarrow> a \<notin> set as \<longrightarrow> detached_ok k ro we a n"
    unfolding rc_shape_def by blast
  have l: "linked_rc (linked_ok k' ro) ns h0 as"
  proof (rule linked_rc_mono [OF as(2)])
    fix b e m assume "ns b = Some m" "linked_ok k ro b e m"
    with assms(2) show "\<exists>n'. ns b = Some n' \<and> next_rc n' = next_rc m \<and> linked_ok k' ro b e n'"
      by (simp add: linked_ok_def)
  qed
  have l': "linked_rc (linked_ok k' ro) ns h0' as"
  proof (cases "h0' = h0")
    case True
    with l show ?thesis by simp
  next
    case False
    with assms(4) have n: "p_rc h0 = None" "p_rc h0' = None" by auto
    from linked_rc_head_None [OF l n(1)] have "as = []" .
    with n(2) show ?thesis by simp
  qed
  have u: "\<forall>a n. ns a = Some n \<longrightarrow> a \<notin> set as \<longrightarrow> detached_ok k' ro we' a n"
  proof (intro allI impI)
    fix a n assume "ns a = Some n" "a \<notin> set as"
    with as(3) have "detached_ok k ro we a n" by simp
    then show "detached_ok k' ro we' a n"
    proof (rule detached_ok_we [OF _ assms(2)])
      fix j assume "j \<in> winners ro a \<or> j \<in> owners ro a"
      then have "ro j = Wins a \<or> ro j = Owns a" by (auto simp: winners_def owners_def)
      then show "we' j = we j" by (rule assms(3))
    qed
  qed
  from as(1) l' u show ?thesis unfolding rc_shape_def by blast
qed

lemma rc_inv_we:
  assumes "rc_inv k ro we ns h0 hp" and "Suc k < 4294967295"
    and "\<And>j a. ro j = Wins a \<or> ro j = Owns a \<Longrightarrow> we' j = we j"
    and "h0' = h0 \<or> (p_rc h0 = None \<and> p_rc h0' = None)"
  shows "rc_inv (Suc k) ro we' ns h0' hp"
proof -
  from assms(1) have b: "rc_bound k ro" and sh: "rc_shape k ro we ns h0" and lv: "rc_live ro ns"
    and hk: "heap_ok ns hp" by (simp_all add: rc_inv_def)
  from b assms(2) have "rc_bound (Suc k) ro" by (simp add: rc_bound_def)
  moreover have "rc_shape (Suc k) ro we' ns h0'"
    by (rule rc_shape_we [OF sh _ assms(3,4)]) simp
  ultimately show ?thesis using lv hk by (simp add: rc_inv_def)
qed

lemma owned_unlinked:
  assumes "linked_rc (linked_ok k ro) ns h0 as" and "ro i = Owns a \<or> ro i = Wins a"
  shows "a \<notin> set as"
proof
  assume "a \<in> set as"
  from linked_rc_member [OF assms(1) this] obtain e m where "ns a = Some m" "linked_ok k ro a e m" by blast
  from this(2) have "owners ro a = {}" "winners ro a = {}" by (simp_all add: linked_ok_def)
  with assms(2) show False by (auto simp: owners_def winners_def)
qed

lemma linked_frame:
  assumes "linked_rc (linked_ok k ro) ns h0 as" and "a \<notin> set as"
    and "role_node (ro i) = None \<or> role_node (ro i) = Some a"
    and "role_node x = None \<or> role_node x = Some a"
    and "\<And>b. b \<noteq> a \<Longrightarrow> ns' b = ns b"
  shows "linked_rc (linked_ok (Suc k) (ro(i := x))) ns' h0 as"
proof (rule linked_rc_mono [OF assms(1)])
  fix b e m assume b: "b \<in> set as" "ns b = Some m" "linked_ok k ro b e m"
  with assms(2) have ne: "b \<noteq> a" by auto
  from assms(3) ne have t1: "role_node (ro i) \<noteq> Some b" by auto
  from assms(4) ne have t2: "role_node x \<noteq> Some b" by auto
  have "linked_ok (Suc k) (ro(i := x)) b e m"
    by (rule linked_ok_frame [where ro = ro and i = i, OF b(3) t1 t2]) simp
  with assms(5) [OF ne] b(2)
  show "\<exists>n'. ns' b = Some n' \<and> next_rc n' = next_rc m \<and> linked_ok (Suc k) (ro(i := x)) b e n'"
    by simp
qed

lemma unlinked_frame:
  assumes "detached_ok k ro we b m" and "b \<noteq> a"
    and "role_node (ro i) = None \<or> role_node (ro i) = Some a"
    and "role_node x = None \<or> role_node x = Some a"
    and "\<And>j. j \<noteq> i \<Longrightarrow> we' j = we j"
  shows "detached_ok (Suc k) (ro(i := x)) we' b m"
proof -
  from assms(3) assms(2) have t1: "role_node (ro i) \<noteq> Some b" by auto
  from assms(4) assms(2) have t2: "role_node x \<noteq> Some b" by auto
  show ?thesis
    by (rule detached_ok_frame [where ro = ro and i = i, OF assms(1) t1 t2 _ assms(5)]) simp_all
qed

lemma rc_inv_next:
  assumes "rc_inv k ro we ns h0 hp" and "Suc k < 4294967295"
    and "ro i = Owns a" and "ns a = Some n" and "inner_cnt n' = inner_cnt n"
  shows "rc_inv (Suc k) ro we (ns(a \<mapsto> n')) h0 hp"
proof -
  from assms(1) have b: "rc_bound k ro" and sh: "rc_shape k ro we ns h0" and lv: "rc_live ro ns"
    and hk: "heap_ok ns hp" by (simp_all add: rc_inv_def)
  from sh obtain as where as: "distinct as" "linked_rc (linked_ok k ro) ns h0 as"
    "\<forall>a n. ns a = Some n \<longrightarrow> a \<notin> set as \<longrightarrow> detached_ok k ro we a n"
    unfolding rc_shape_def by blast
  from assms(3) have notin: "a \<notin> set as" by (intro owned_unlinked [where i = i, OF as(2)]) simp
  have l: "linked_rc (linked_ok (Suc k) ro) (ns(a \<mapsto> n')) h0 as"
  proof (rule linked_rc_mono [OF as(2)])
    fix b e m assume bm: "b \<in> set as" "ns b = Some m" "linked_ok k ro b e m"
    with notin have "b \<noteq> a" by auto
    with bm(2) linked_ok_Suc [OF bm(3)]
    show "\<exists>n'a. (ns(a \<mapsto> n')) b = Some n'a \<and> next_rc n'a = next_rc m \<and> linked_ok (Suc k) ro b e n'a"
      by simp
  qed
  have u: "\<forall>b m. (ns(a \<mapsto> n')) b = Some m \<longrightarrow> b \<notin> set as \<longrightarrow> detached_ok (Suc k) ro we b m"
  proof (intro allI impI)
    fix b m assume bm: "(ns(a \<mapsto> n')) b = Some m" "b \<notin> set as"
    show "detached_ok (Suc k) ro we b m"
    proof (cases "b = a")
      case True
      with bm have m: "m = n'" by simp
      from as(3) assms(4) notin have "detached_ok k ro we a n" by simp
      then have "detached_ok k ro we a n'" using assms(5) by (simp add: detached_ok_def)
      then have "detached_ok (Suc k) ro we a n'" by (rule detached_ok_Suc)
      with True m show ?thesis by simp
    next
      case False
      with bm as(3) have "detached_ok k ro we b m" by simp
      then show ?thesis by (rule detached_ok_Suc)
    qed
  qed
  from as(1) l u have "rc_shape (Suc k) ro we (ns(a \<mapsto> n')) h0" unfolding rc_shape_def by blast
  moreover from b assms(2) have "rc_bound (Suc k) ro" by (simp add: rc_bound_def)
  moreover from lv have "rc_live ro (ns(a \<mapsto> n'))" by (rule rc_live_upd)
  moreover from hk assms(4) have "heap_ok (ns(a \<mapsto> n')) hp" by (rule heap_ok_upd)
  ultimately show ?thesis by (simp add: rc_inv_def)
qed

lemma rc_inv_alloc:
  assumes "rc_inv k ro we ns h0 hp" and "Suc k < 4294967295"
    and "ro i = NoRole" and "operator_new hp = Some (a, hp')" and "inner_cnt n0 = 0"
    and "we' i = 1" and "\<And>j. j \<noteq> i \<Longrightarrow> we' j = we j"
  shows "rc_inv (Suc k) (ro(i := Owns a)) we' (ns(a \<mapsto> n0)) h0 hp'"
proof -
  from assms(1) have b: "rc_bound k ro" and sh: "rc_shape k ro we ns h0" and lv: "rc_live ro ns"
    and hk: "heap_ok ns hp" by (simp_all add: rc_inv_def)
  from sh obtain as where as: "distinct as" "linked_rc (linked_ok k ro) ns h0 as"
    "\<forall>a n. ns a = Some n \<longrightarrow> a \<notin> set as \<longrightarrow> detached_ok k ro we a n"
    unfolding rc_shape_def by blast
  from heap_ok_new [OF hk assms(4)] have hk': "heap_ok (ns(a \<mapsto> n0)) hp'"
    and fresh: "ns a = None" by simp_all
  from lv fresh have nt: "\<And>j. role_node (ro j) \<noteq> Some a" by (simp add: rc_live_def)
  note e = no_target [of ro a, OF nt]
  have notin: "a \<notin> set as"
  proof
    assume "a \<in> set as"
    from linked_rc_member [OF as(2) this] fresh show False by simp
  qed
  from assms(3) have t1: "role_node (ro i) = None \<or> role_node (ro i) = Some a" by simp
  have t2: "role_node (Owns a) = None \<or> role_node (Owns a) = Some a" by simp
  have l: "linked_rc (linked_ok (Suc k) (ro(i := Owns a))) (ns(a \<mapsto> n0)) h0 as"
    by (rule linked_frame [OF as(2) notin t1 t2]) simp
  have u: "\<forall>b m. (ns(a \<mapsto> n0)) b = Some m \<longrightarrow> b \<notin> set as \<longrightarrow>
             detached_ok (Suc k) (ro(i := Owns a)) we' b m"
  proof (intro allI impI)
    fix b m assume bm: "(ns(a \<mapsto> n0)) b = Some m" "b \<notin> set as"
    show "detached_ok (Suc k) (ro(i := Owns a)) we' b m"
    proof (cases "b = a")
      case True
      with bm have m: "m = n0" by simp
      have "detached_ok (Suc k) (ro(i := Owns a)) we' a n0"
        by (simp add: detached_ok_def holders_upd winners_upd owners_upd e assms(5,6))
      with True m show ?thesis by simp
    next
      case False
      with bm as(3) have "detached_ok k ro we b m" by simp
      from this False t1 t2 assms(7) show ?thesis by (rule unlinked_frame)
    qed
  qed
  from as(1) l u have "rc_shape (Suc k) (ro(i := Owns a)) we' (ns(a \<mapsto> n0)) h0"
    unfolding rc_shape_def by blast
  moreover from b assms(2) have "rc_bound (Suc k) (ro(i := Owns a))" by (rule rc_bound_step) simp
  moreover from lv have "rc_live (ro(i := Owns a)) (ns(a \<mapsto> n0))"
    by (rule rc_live_keep) auto
  ultimately show ?thesis using hk' by (simp add: rc_inv_def)
qed

lemma rc_inv_link:
  assumes "rc_inv k ro we ns h0 hp" and "Suc k < 4294967295"
    and "ro i = Owns a" and "ns a = Some n" and "next_rc n = h0"
    and "p_rc h0' = Some a" and "external_cnt h0' = we i"
  shows "rc_inv (Suc k) (ro(i := NoRole)) we ns h0' hp"
proof -
  from assms(1) have b: "rc_bound k ro" and sh: "rc_shape k ro we ns h0" and lv: "rc_live ro ns"
    and hk: "heap_ok ns hp" by (simp_all add: rc_inv_def)
  from sh obtain as where as: "distinct as" "linked_rc (linked_ok k ro) ns h0 as"
    "\<forall>a n. ns a = Some n \<longrightarrow> a \<notin> set as \<longrightarrow> detached_ok k ro we a n"
    unfolding rc_shape_def by blast
  from assms(3) have notin: "a \<notin> set as" by (intro owned_unlinked [where i = i, OF as(2)]) simp
  from assms(3) have iO: "i \<in> owners ro a" by (simp add: owners_def)
  from as(3) assms(4) notin have "detached_ok k ro we a n" by simp
  with iO obtain j where j: "owners ro a = {j}" "we j = 1" "winners ro a = {}" "holders ro a = {}"
    "inner_cnt n = 0"
    unfolding detached_ok_def by auto
  from j(1) iO have ji: "j = i" by simp
  from assms(3) have t1: "role_node (ro i) = None \<or> role_node (ro i) = Some a" by simp
  have t2: "role_node NoRole = None \<or> role_node NoRole = Some a" by simp
  have K: "linked_ok (Suc k) (ro(i := NoRole)) a (external_cnt h0') n"
    using j ji assms(7) by (simp add: linked_ok_def holders_upd winners_upd owners_upd)
  have "linked_rc (linked_ok (Suc k) (ro(i := NoRole))) ns h0 as"
    by (rule linked_frame [OF as(2) notin t1 t2]) simp
  with K assms(4,5,6) have l: "linked_rc (linked_ok (Suc k) (ro(i := NoRole))) ns h0' (a # as)"
    by (simp add: linked_rc_Cons)
  have u: "\<forall>b m. ns b = Some m \<longrightarrow> b \<notin> set (a # as) \<longrightarrow> detached_ok (Suc k) (ro(i := NoRole)) we b m"
  proof (intro allI impI)
    fix b m assume bm: "ns b = Some m" "b \<notin> set (a # as)"
    then have ne: "b \<noteq> a" by simp
    from bm as(3) have "detached_ok k ro we b m" by simp
    from this ne t1 t2 show "detached_ok (Suc k) (ro(i := NoRole)) we b m"
      by (rule unlinked_frame) simp
  qed
  from as(1) notin have "distinct (a # as)" by simp
  with l u have "rc_shape (Suc k) (ro(i := NoRole)) we ns h0'" unfolding rc_shape_def by blast
  moreover from b assms(2) have "rc_bound (Suc k) (ro(i := NoRole))" by (rule rc_bound_step) simp
  moreover from lv have "rc_live (ro(i := NoRole)) ns" by (rule rc_live_keep) auto
  ultimately show ?thesis using hk by (simp add: rc_inv_def)
qed

lemma rc_inv_inc:
  assumes "rc_inv k ro we ns h0 hp" and "Suc k < 4294967295"
    and "ro i = NoRole" and "p_rc h0 = Some a" and "\<And>j. j \<noteq> i \<Longrightarrow> we' j = we j"
  shows "rc_inv (Suc k) (ro(i := Holds a)) we' ns (h0\<lparr>external_cnt := external_cnt h0 + 1\<rparr>) hp"
proof -
  from assms(1) have b: "rc_bound k ro" and sh: "rc_shape k ro we ns h0" and lv: "rc_live ro ns"
    and hk: "heap_ok ns hp" by (simp_all add: rc_inv_def)
  from sh obtain as where as: "distinct as" "linked_rc (linked_ok k ro) ns h0 as"
    "\<forall>a n. ns a = Some n \<longrightarrow> a \<notin> set as \<longrightarrow> detached_ok k ro we a n"
    unfolding rc_shape_def by blast
  from linked_rc_head_Some [OF as(2) assms(4)] obtain rest n where
    r: "as = a # rest" "ns a = Some n" "linked_ok k ro a (external_cnt h0) n"
       "linked_rc (linked_ok k ro) ns (next_rc n) rest" by blast
  from as(1) r(1) have notin: "a \<notin> set rest" by simp
  from assms(3) have t1: "role_node (ro i) = None \<or> role_node (ro i) = Some a" by simp
  have t2: "role_node (Holds a) = None \<or> role_node (Holds a) = Some a" by simp
  have fin: "finite (holders ro a)" by (rule holders_bound [OF b])
  from assms(3) have ni: "i \<notin> holders ro a" by (simp add: holders_def)
  have H: "holders (ro(i := Holds a)) a = insert i (holders ro a)" by (simp add: holders_upd)
  from fin ni have c: "card (insert i (holders ro a)) = Suc (card (holders ro a))" by simp
  from r(3) have K: "linked_ok (Suc k) (ro(i := Holds a)) a (external_cnt h0 + 1) n"
    by (simp add: linked_ok_def H c winners_upd owners_upd)
  have "linked_rc (linked_ok (Suc k) (ro(i := Holds a))) ns (next_rc n) rest"
    by (rule linked_frame [OF r(4) notin t1 t2]) simp
  with K r(1,2) assms(4)
  have l: "linked_rc (linked_ok (Suc k) (ro(i := Holds a))) ns (h0\<lparr>external_cnt := external_cnt h0 + 1\<rparr>) as"
    by (simp add: linked_rc_Cons)
  have u: "\<forall>b m. ns b = Some m \<longrightarrow> b \<notin> set as \<longrightarrow> detached_ok (Suc k) (ro(i := Holds a)) we' b m"
  proof (intro allI impI)
    fix b m assume bm: "ns b = Some m" "b \<notin> set as"
    with r(1) have ne: "b \<noteq> a" by auto
    from bm as(3) have "detached_ok k ro we b m" by simp
    from this ne t1 t2 assms(5) show "detached_ok (Suc k) (ro(i := Holds a)) we' b m"
      by (rule unlinked_frame)
  qed
  from as(1) l u
  have "rc_shape (Suc k) (ro(i := Holds a)) we' ns (h0\<lparr>external_cnt := external_cnt h0 + 1\<rparr>)"
    unfolding rc_shape_def by blast
  moreover from b assms(2) have "rc_bound (Suc k) (ro(i := Holds a))" by (rule rc_bound_step) simp
  moreover from lv have "rc_live (ro(i := Holds a)) ns"
    by (rule rc_live_keep) (use r(2) in auto)
  ultimately show ?thesis using hk by (simp add: rc_inv_def)
qed

lemma rc_inv_detach:
  assumes "rc_inv k ro we ns h0 hp" and "Suc k < 4294967295"
    and "ro i = Holds a" and "p_rc h0 = Some a" and "ns a = Some n"
    and "we i = external_cnt h0"
  shows "rc_inv (Suc k) (ro(i := Wins a)) we ns (next_rc n) hp"
proof -
  from assms(1) have b: "rc_bound k ro" and sh: "rc_shape k ro we ns h0" and lv: "rc_live ro ns"
    and hk: "heap_ok ns hp" by (simp_all add: rc_inv_def)
  from sh obtain as where as: "distinct as" "linked_rc (linked_ok k ro) ns h0 as"
    "\<forall>a n. ns a = Some n \<longrightarrow> a \<notin> set as \<longrightarrow> detached_ok k ro we a n"
    unfolding rc_shape_def by blast
  from linked_rc_head_Some [OF as(2) assms(4)] assms(5) obtain rest where
    r: "as = a # rest" "linked_ok k ro a (external_cnt h0) n"
       "linked_rc (linked_ok k ro) ns (next_rc n) rest" by auto
  from as(1) r(1) have notin: "a \<notin> set rest" and d: "distinct rest" by simp_all
  from assms(3) have t1: "role_node (ro i) = None \<or> role_node (ro i) = Some a" by simp
  have t2: "role_node (Wins a) = None \<or> role_node (Wins a) = Some a" by simp
  have fin: "finite (holders ro a)" by (rule holders_bound [OF b])
  from assms(3) have ii: "i \<in> holders ro a" by (simp add: holders_def)
  have H: "holders (ro(i := Wins a)) a = holders ro a - {i}" by (simp add: holders_upd)
  define c' where "c' = card (holders ro a - {i})"
  from fin ii have c: "card (holders ro a) = Suc c'" unfolding c'_def by (rule card.remove)
  have Hc: "card (holders (ro(i := Wins a)) a) = c'" unfolding H c'_def by (rule refl)
  from r(2) have k1: "external_cnt h0 + inner_cnt n = 1 + of_nat (card (holders ro a))"
    and k2: "unat (- inner_cnt n) \<le> k" and k3: "winners ro a = {}" and k4: "owners ro a = {}"
    by (simp_all add: linked_ok_def)
  from k1 have k5: "we i + inner_cnt n = 2 + of_nat c'"
    by (simp add: c assms(6))
  have U: "detached_ok (Suc k) (ro(i := Wins a)) we a n"
    using k2 k3 k4 k5 by (simp add: detached_ok_def Hc winners_upd owners_upd)
  have l: "linked_rc (linked_ok (Suc k) (ro(i := Wins a))) ns (next_rc n) rest"
    by (rule linked_frame [OF r(3) notin t1 t2]) simp
  have u: "\<forall>b m. ns b = Some m \<longrightarrow> b \<notin> set rest \<longrightarrow> detached_ok (Suc k) (ro(i := Wins a)) we b m"
  proof (intro allI impI)
    fix b m assume bm: "ns b = Some m" "b \<notin> set rest"
    show "detached_ok (Suc k) (ro(i := Wins a)) we b m"
    proof (cases "b = a")
      case True
      with bm assms(5) U show ?thesis by simp
    next
      case False
      with bm r(1) have "b \<notin> set as" by simp
      with bm as(3) have "detached_ok k ro we b m" by simp
      from this False t1 t2 show ?thesis by (rule unlinked_frame) simp
    qed
  qed
  from d l u have "rc_shape (Suc k) (ro(i := Wins a)) we ns (next_rc n)"
    unfolding rc_shape_def by blast
  moreover from b assms(2) have "rc_bound (Suc k) (ro(i := Wins a))" by (rule rc_bound_step) simp
  moreover from lv have "rc_live (ro(i := Wins a)) ns"
    by (rule rc_live_keep) (use assms(5) in auto)
  ultimately show ?thesis using hk by (simp add: rc_inv_def)
qed

lemma others_gone:
  assumes "holders ro a \<subseteq> {i}" and "winners ro a \<subseteq> {i}" and "owners ro a \<subseteq> {i}" and "j \<noteq> i"
  shows "role_node (ro j) \<noteq> Some a"
proof
  assume "role_node (ro j) = Some a"
  from role_node_eq [OF this] have "j \<in> holders ro a \<or> j \<in> winners ro a \<or> j \<in> owners ro a"
    by (simp add: holders_def winners_def owners_def)
  with assms show False by auto
qed

lemma rc_inv_delete:
  assumes "rc_bound k ro" and "rc_live ro ns" and "heap_ok ns hp" and "Suc k < 4294967295"
    and "distinct as" and "linked_rc (linked_ok k ro) ns h0 as"
    and "\<forall>a n. ns a = Some n \<longrightarrow> a \<notin> set as \<longrightarrow> detached_ok k ro we a n"
    and "a \<notin> set as" and "ns a = Some n" and "role_node (ro i) = Some a"
    and "holders ro a \<subseteq> {i}" and "winners ro a \<subseteq> {i}" and "owners ro a \<subseteq> {i}"
  shows "rc_inv (Suc k) (ro(i := NoRole)) we (ns(a := None)) h0 (operator_delete a hp)"
proof -
  from assms(10) have t1: "role_node (ro i) = None \<or> role_node (ro i) = Some a" by simp
  have t2: "role_node NoRole = None \<or> role_node NoRole = Some a" by simp
  have l: "linked_rc (linked_ok (Suc k) (ro(i := NoRole))) (ns(a := None)) h0 as"
    by (rule linked_frame [OF assms(6,8) t1 t2]) simp
  have u: "\<forall>b m. (ns(a := None)) b = Some m \<longrightarrow> b \<notin> set as \<longrightarrow>
             detached_ok (Suc k) (ro(i := NoRole)) we b m"
  proof (intro allI impI)
    fix b m assume bm: "(ns(a := None)) b = Some m" "b \<notin> set as"
    then have ne: "b \<noteq> a" by (auto split: if_splits)
    with bm assms(7) have "detached_ok k ro we b m" by simp
    from this ne t1 t2 show "detached_ok (Suc k) (ro(i := NoRole)) we b m"
      by (rule unlinked_frame) simp
  qed
  from assms(5) l u have "rc_shape (Suc k) (ro(i := NoRole)) we (ns(a := None)) h0"
    unfolding rc_shape_def by blast
  moreover from assms(1,4) have "rc_bound (Suc k) (ro(i := NoRole))" by (rule rc_bound_step) simp
  moreover have "rc_live (ro(i := NoRole)) (ns(a := None))"
  proof (rule rc_live_delete [OF assms(2)])
    fix j assume "j \<noteq> i"
    with assms(11,12,13) show "role_node (ro j) \<noteq> Some a" by (rule others_gone)
  qed simp
  moreover from assms(3,9) have "heap_ok (ns(a := None)) (operator_delete a hp)"
    by (rule heap_ok_delete)
  ultimately show ?thesis by (simp add: rc_inv_def)
qed

lemma settle_count:
  assumes "rc_inv k ro we ns h0 hp" and "ro i = Wins a" and "ns a = Some n"
  shows "\<exists>as. distinct as \<and> linked_rc (linked_ok k ro) ns h0 as \<and>
           (\<forall>a n. ns a = Some n \<longrightarrow> a \<notin> set as \<longrightarrow> detached_ok k ro we a n) \<and> a \<notin> set as"
    and "owners ro a = {}" and "winners ro a = {i}"
    and "inner_cnt n + (we i - 2) = of_nat (card (holders ro a))"
    and "(inner_cnt n = - (we i - 2)) = (holders ro a = {})"
    and "i \<notin> holders ro a"
proof -
  from assms(1) have b: "rc_bound k ro" and sh: "rc_shape k ro we ns h0" by (simp_all add: rc_inv_def)
  from sh obtain as where as: "distinct as" "linked_rc (linked_ok k ro) ns h0 as"
    "\<forall>a n. ns a = Some n \<longrightarrow> a \<notin> set as \<longrightarrow> detached_ok k ro we a n"
    unfolding rc_shape_def by blast
  from assms(2) have notin: "a \<notin> set as" by (intro owned_unlinked [where i = i, OF as(2)]) simp
  with as show "\<exists>as. distinct as \<and> linked_rc (linked_ok k ro) ns h0 as \<and>
           (\<forall>a n. ns a = Some n \<longrightarrow> a \<notin> set as \<longrightarrow> detached_ok k ro we a n) \<and> a \<notin> set as"
    by blast
  from assms(2) have iW: "i \<in> winners ro a" by (simp add: winners_def)
  from assms(2) show "i \<notin> holders ro a" by (simp add: holders_def)
  from as(3) assms(3) notin have "detached_ok k ro we a n" by simp
  with iW obtain j where j: "owners ro a = {}" "winners ro a = {j}"
    "we j + inner_cnt n = 2 + of_nat (card (holders ro a))"
    unfolding detached_ok_def by auto
  from j(2) iW have ji: "j = i" by simp
  from j(1) show "owners ro a = {}" .
  from j(2) ji show "winners ro a = {i}" by simp
  define c where "c = card (holders ro a)"
  from j(3) ji have "we i + inner_cnt n = 2 + of_nat c" by (simp add: c_def)
  then have "(we i + inner_cnt n) - 2 = of_nat c" by simp
  then have s: "inner_cnt n + (we i - 2) = of_nat c" by (simp add: algebra_simps)
  then show "inner_cnt n + (we i - 2) = of_nat (card (holders ro a))" by (simp add: c_def)
  have c: "c < 4294967296" using holders_bound(3) [OF b, of a] by (simp add: c_def)
  have "(inner_cnt n = - (we i - 2)) = (inner_cnt n + (we i - 2) = 0)" by (rule w_eq_neg)
  also have "\<dots> = (c = 0)" unfolding s by (rule w_of_nat_0 [OF c])
  also have "\<dots> = (holders ro a = {})" using holders_bound(1) [OF b, of a] by (simp add: c_def)
  finally show "(inner_cnt n = - (we i - 2)) = (holders ro a = {})" .
qed

lemma rc_inv_settle_delete:
  assumes "rc_inv k ro we ns h0 hp" and "Suc k < 4294967295"
    and "ro i = Wins a" and "ns a = Some n" and "inner_cnt n = - (we i - 2)"
  shows "rc_inv (Suc k) (ro(i := NoRole)) we (ns(a := None)) h0 (operator_delete a hp)"
proof -
  from assms(1) have b: "rc_bound k ro" and lv: "rc_live ro ns" and hk: "heap_ok ns hp"
    by (simp_all add: rc_inv_def)
  note sc = settle_count [OF assms(1,3,4)]
  from sc(1) obtain as where as: "distinct as" "linked_rc (linked_ok k ro) ns h0 as"
    "\<forall>a n. ns a = Some n \<longrightarrow> a \<notin> set as \<longrightarrow> detached_ok k ro we a n" "a \<notin> set as"
    by blast
  from sc(5) assms(5) have "holders ro a = {}" by simp
  then have h: "holders ro a \<subseteq> {i}" by simp
  from sc(3) have w: "winners ro a \<subseteq> {i}" by simp
  from sc(2) have ow: "owners ro a \<subseteq> {i}" by simp
  from assms(3) have t: "role_node (ro i) = Some a" by simp
  from b lv hk assms(2) as(1,2,3,4) assms(4) t h w ow show ?thesis by (rule rc_inv_delete)
qed

lemma rc_inv_settle_keep:
  assumes "rc_inv k ro we ns h0 hp" and "Suc k < 4294967295"
    and "ro i = Wins a" and "ns a = Some n" and "inner_cnt n \<noteq> - (we i - 2)"
    and "inner_cnt n' = inner_cnt n + (we i - 2)"
  shows "rc_inv (Suc k) (ro(i := NoRole)) we (ns(a \<mapsto> n')) h0 hp"
proof -
  from assms(1) have b: "rc_bound k ro" and lv: "rc_live ro ns" and hk: "heap_ok ns hp"
    by (simp_all add: rc_inv_def)
  note sc = settle_count [OF assms(1,3,4)]
  from sc(1) obtain as where as: "distinct as" "linked_rc (linked_ok k ro) ns h0 as"
    "\<forall>a n. ns a = Some n \<longrightarrow> a \<notin> set as \<longrightarrow> detached_ok k ro we a n" "a \<notin> set as"
    by blast
  from sc(5) assms(5) have ne: "holders ro a \<noteq> {}" by simp
  from sc(6) have H: "holders (ro(i := NoRole)) a = holders ro a" by (simp add: holders_upd)
  from sc(3) have W: "winners (ro(i := NoRole)) a = {}" by (simp add: winners_upd)
  from sc(2) have O: "owners (ro(i := NoRole)) a = {}" by (simp add: owners_upd)
  from sc(4) assms(6) have "inner_cnt n' = of_nat (card (holders ro a))" by simp
  with ne have U: "detached_ok (Suc k) (ro(i := NoRole)) we a n'" by (simp add: detached_ok_def H W O)
  from assms(3) have t1: "role_node (ro i) = None \<or> role_node (ro i) = Some a" by simp
  have t2: "role_node NoRole = None \<or> role_node NoRole = Some a" by simp
  have l: "linked_rc (linked_ok (Suc k) (ro(i := NoRole))) (ns(a \<mapsto> n')) h0 as"
    by (rule linked_frame [OF as(2,4) t1 t2]) simp
  have u: "\<forall>b m. (ns(a \<mapsto> n')) b = Some m \<longrightarrow> b \<notin> set as \<longrightarrow>
             detached_ok (Suc k) (ro(i := NoRole)) we b m"
  proof (intro allI impI)
    fix b m assume bm: "(ns(a \<mapsto> n')) b = Some m" "b \<notin> set as"
    show "detached_ok (Suc k) (ro(i := NoRole)) we b m"
    proof (cases "b = a")
      case True
      with bm U show ?thesis by simp
    next
      case False
      with bm as(3) have "detached_ok k ro we b m" by simp
      from this False t1 t2 show ?thesis by (rule unlinked_frame) simp
    qed
  qed
  from as(1) l u have "rc_shape (Suc k) (ro(i := NoRole)) we (ns(a \<mapsto> n')) h0"
    unfolding rc_shape_def by blast
  moreover from b assms(2) have "rc_bound (Suc k) (ro(i := NoRole))" by (rule rc_bound_step) simp
  moreover from lv have "rc_live (ro(i := NoRole)) (ns(a \<mapsto> n'))" by (rule rc_live_keep) auto
  moreover from hk assms(4) have "heap_ok (ns(a \<mapsto> n')) hp" by (rule heap_ok_upd)
  ultimately show ?thesis by (simp add: rc_inv_def)
qed

lemma rc_inv_release_delete:
  assumes "rc_inv k ro we ns h0 hp" and "Suc k < 4294967295"
    and "ro i = Holds a" and "ns a = Some n" and "inner_cnt n = 1"
  shows "rc_inv (Suc k) (ro(i := NoRole)) we (ns(a := None)) h0 (operator_delete a hp)"
proof -
  from assms(1) have b: "rc_bound k ro" and sh: "rc_shape k ro we ns h0" and lv: "rc_live ro ns"
    and hk: "heap_ok ns hp" by (simp_all add: rc_inv_def)
  from sh obtain as where as: "distinct as" "linked_rc (linked_ok k ro) ns h0 as"
    "\<forall>a n. ns a = Some n \<longrightarrow> a \<notin> set as \<longrightarrow> detached_ok k ro we a n"
    unfolding rc_shape_def by blast
  from b have kb: "k < 4294967295" by (simp add: rc_bound_def)
  from assms(3) have iH: "i \<in> holders ro a" by (simp add: holders_def)
  have nb: "\<not> unat (- inner_cnt n) \<le> k"
  proof
    assume "unat (- inner_cnt n) \<le> k"
    from w_neg_bound [OF this kb] assms(5) show False by simp
  qed
  have notin: "a \<notin> set as"
  proof
    assume "a \<in> set as"
    from linked_rc_member [OF as(2) this] assms(4) obtain e where "linked_ok k ro a e n" by auto
    then have "unat (- inner_cnt n) \<le> k" by (simp add: linked_ok_def)
    with nb show False by simp
  qed
  from as(3) assms(4) notin have g: "detached_ok k ro we a n" by simp
  with iH nb have D2: "owners ro a = {}" "winners ro a = {}" "inner_cnt n = of_nat (card (holders ro a))"
    unfolding detached_ok_def by auto
  have c: "card (holders ro a) < 4294967296" using holders_bound(3) [OF b, of a] by simp
  from D2(3) assms(5) have "(of_nat (card (holders ro a)) :: 32 word) = 1" by simp
  with w_of_nat_1 [OF c] have "card (holders ro a) = 1" by simp
  then obtain x where "holders ro a = {x}" by (rule card_1_singletonE)
  with iH have h: "holders ro a \<subseteq> {i}" by simp
  from D2(2) have w: "winners ro a \<subseteq> {i}" by simp
  from D2(1) have ow: "owners ro a \<subseteq> {i}" by simp
  from assms(3) have t: "role_node (ro i) = Some a" by simp
  from b lv hk assms(2) as(1,2,3) notin assms(4) t h w ow show ?thesis by (rule rc_inv_delete)
qed

lemma rc_inv_release_keep:
  assumes "rc_inv k ro we ns h0 hp" and "Suc k < 4294967295"
    and "ro i = Holds a" and "ns a = Some n" and "inner_cnt n \<noteq> 1"
    and "inner_cnt n' = inner_cnt n - 1" and "next_rc n' = next_rc n"
  shows "rc_inv (Suc k) (ro(i := NoRole)) we (ns(a \<mapsto> n')) h0 hp"
proof -
  from assms(1) have b: "rc_bound k ro" and sh: "rc_shape k ro we ns h0" and lv: "rc_live ro ns"
    and hk: "heap_ok ns hp" by (simp_all add: rc_inv_def)
  from sh obtain as where as: "distinct as" "linked_rc (linked_ok k ro) ns h0 as"
    "\<forall>a n. ns a = Some n \<longrightarrow> a \<notin> set as \<longrightarrow> detached_ok k ro we a n"
    unfolding rc_shape_def by blast
  from assms(3) have iH: "i \<in> holders ro a" by (simp add: holders_def)
  from assms(3) have iW: "i \<notin> winners ro a" and iO: "i \<notin> owners ro a" by (simp_all add: winners_def owners_def)
  have fin: "finite (holders ro a)" by (rule holders_bound [OF b])
  define c' where "c' = card (holders ro a - {i})"
  from fin iH have c: "card (holders ro a) = Suc c'" unfolding c'_def by (rule card.remove)
  have H: "holders (ro(i := NoRole)) a = holders ro a - {i}" by (simp add: holders_upd)
  have Hc: "card (holders (ro(i := NoRole)) a) = c'" unfolding H c'_def by (rule refl)
  from iW have W: "winners (ro(i := NoRole)) a = winners ro a" by (simp add: winners_upd)
  from iO have O: "owners (ro(i := NoRole)) a = owners ro a" by (simp add: owners_upd)
  have He: "(holders (ro(i := NoRole)) a \<noteq> {}) = (c' \<noteq> 0)"
  proof -
    from fin have "finite (holders (ro(i := NoRole)) a)" unfolding H by simp
    then have "(card (holders (ro(i := NoRole)) a) = 0) = (holders (ro(i := NoRole)) a = {})"
      by (rule card_0_eq)
    then show ?thesis unfolding Hc by simp
  qed
  have cb: "Suc c' < 4294967296" using holders_bound(3) [OF b, of a] by (simp add: c)
  have nb: "unat (- inner_cnt n') \<le> Suc k" if "unat (- inner_cnt n) \<le> k"
  proof -
    have "unat (- inner_cnt n') \<le> Suc (unat (- inner_cnt n))"
      unfolding assms(6) by (rule w_neg_pred)
    with that show ?thesis by simp
  qed
  have ar: "x + inner_cnt n' = y + of_nat c'" if "x + inner_cnt n = y + of_nat (Suc c')"
    for x y :: "32 word"
  proof -
    have "x + inner_cnt n' = (x + inner_cnt n) - 1" by (simp add: assms(6))
    also have "\<dots> = (y + of_nat (Suc c')) - 1" by (simp only: that)
    also have "\<dots> = y + of_nat c'" by simp
    finally show ?thesis .
  qed
  have Kstep: "linked_ok (Suc k) (ro(i := NoRole)) a e n'" if "linked_ok k ro a e n" for e
  proof -
    from that have k1: "e + inner_cnt n = 1 + of_nat (Suc c')"
      and k2: "unat (- inner_cnt n) \<le> k" and k3: "winners ro a = {}" and k4: "owners ro a = {}"
      by (simp_all add: linked_ok_def c)
    from ar [OF k1] nb [OF k2] k3 k4 show ?thesis by (simp add: linked_ok_def Hc W O)
  qed
  have Ustep: "detached_ok (Suc k) (ro(i := NoRole)) we a n'" if "detached_ok k ro we a n"
  proof -
    from that iH consider
        (D1) j where "owners ro a = {}" "winners ro a = {j}"
          "we j + inner_cnt n = 2 + of_nat (Suc c')" "unat (- inner_cnt n) \<le> k"
      | (D2) "owners ro a = {}" "winners ro a = {}" "inner_cnt n = of_nat (Suc c')"
      unfolding detached_ok_def c by auto
    then show ?thesis
    proof cases
      case D1
      from ar [OF D1(3)] nb [OF D1(4)] D1(1,2) show ?thesis
        by (simp add: detached_ok_def Hc W O)
    next
      case D2
      from D2(3) have "0 + inner_cnt n = 0 + of_nat (Suc c')" by simp
      from ar [OF this] have i': "inner_cnt n' = of_nat c'" by simp
      from D2(3) assms(5) have "(of_nat (Suc c') :: 32 word) \<noteq> 1" by simp
      with w_of_nat_1 [OF cb] have "c' \<noteq> 0" by simp
      with i' D2(1,2) show ?thesis by (simp add: detached_ok_def Hc He W O)
    qed
  qed
  from assms(3) have t1: "role_node (ro i) = None \<or> role_node (ro i) = Some a" by simp
  have t2: "role_node NoRole = None \<or> role_node NoRole = Some a" by simp
  have l: "linked_rc (linked_ok (Suc k) (ro(i := NoRole))) (ns(a \<mapsto> n')) h0 as"
  proof (rule linked_rc_mono [OF as(2)])
    fix b e m assume bm: "b \<in> set as" "ns b = Some m" "linked_ok k ro b e m"
    show "\<exists>n'a. (ns(a \<mapsto> n')) b = Some n'a \<and> next_rc n'a = next_rc m \<and>
            linked_ok (Suc k) (ro(i := NoRole)) b e n'a"
    proof (cases "b = a")
      case True
      with bm assms(4) have "m = n" by simp
      with bm(3) True have "linked_ok k ro a e n" by simp
      from Kstep [OF this] True \<open>m = n\<close> assms(7) show ?thesis by simp
    next
      case False
      from t1 False have t1': "role_node (ro i) \<noteq> Some b" by auto
      have t2': "role_node NoRole \<noteq> Some b" by simp
      have "linked_ok (Suc k) (ro(i := NoRole)) b e m"
        by (rule linked_ok_frame [where ro = ro and i = i, OF bm(3) t1' t2']) simp
      with False bm(2) show ?thesis by simp
    qed
  qed
  have u: "\<forall>b m. (ns(a \<mapsto> n')) b = Some m \<longrightarrow> b \<notin> set as \<longrightarrow>
             detached_ok (Suc k) (ro(i := NoRole)) we b m"
  proof (intro allI impI)
    fix b m assume bm: "(ns(a \<mapsto> n')) b = Some m" "b \<notin> set as"
    show "detached_ok (Suc k) (ro(i := NoRole)) we b m"
    proof (cases "b = a")
      case True
      with bm have m: "m = n'" by simp
      from True bm(2) as(3) assms(4) have "detached_ok k ro we a n" by simp
      from Ustep [OF this] True m show ?thesis by simp
    next
      case False
      with bm as(3) have "detached_ok k ro we b m" by simp
      from this False t1 t2 show ?thesis by (rule unlinked_frame) simp
    qed
  qed
  from as(1) l u have "rc_shape (Suc k) (ro(i := NoRole)) we (ns(a \<mapsto> n')) h0"
    unfolding rc_shape_def by blast
  moreover from b assms(2) have "rc_bound (Suc k) (ro(i := NoRole))" by (rule rc_bound_step) simp
  moreover from lv have "rc_live (ro(i := NoRole)) (ns(a \<mapsto> n'))" by (rule rc_live_keep) auto
  moreover from hk assms(4) have "heap_ok (ns(a \<mapsto> n')) hp" by (rule heap_ok_upd)
  ultimately show ?thesis by (simp add: rc_inv_def)
qed

lemma heap_rc_delete_Node_rc [simp]:
  "heap_rc (delete_Node_rc a s) = operator_delete a (heap_rc s)"
  by (simp add: delete_Node_rc_def)

lemma roles_rc_eqI:
  "threads_rc s' = (threads_rc s)(i := th') \<Longrightarrow> role_rc th' = x \<Longrightarrow>
     roles_rc s' = (roles_rc s)(i := x)"
  by (rule ext) (simp add: roles_rc_def)

lemma roles_rc_sameI:
  "threads_rc s' = (threads_rc s)(i := th') \<Longrightarrow> role_rc th' = roles_rc s i \<Longrightarrow>
     roles_rc s' = roles_rc s"
  by (rule ext) (simp add: roles_rc_def)

lemma exts_rc_sameI:
  "threads_rc s' = (threads_rc s)(i := th') \<Longrightarrow> t_rc th' = t_rc (threads_rc s i) \<Longrightarrow>
     exts_rc s' = exts_rc s"
  by (rule ext) (simp add: exts_rc_def)

lemma exts_rc_other:
  "threads_rc s' = (threads_rc s)(i := th') \<Longrightarrow> j \<noteq> i \<Longrightarrow> exts_rc s' j = exts_rc s j"
  by (simp add: exts_rc_def)

lemma inv_rc_role: "inv_rc k s \<Longrightarrow> roles_rc s i \<noteq> Bad"
  by (simp add: inv_rc_def rc_inv_def rc_bound_def)

lemma inv_rc_live:
  assumes "inv_rc k s" and "role_node (roles_rc s i) = Some a"
  shows "\<exists>n. nodes_rc s a = Some n"
proof (rule ccontr)
  assume "\<not> (\<exists>n. nodes_rc s a = Some n)"
  then have "nodes_rc s a = None" by simp
  moreover from assms(1) have "rc_live (roles_rc s) (nodes_rc s)" by (simp add: inv_rc_def rc_inv_def)
  ultimately have "role_node (roles_rc s i) \<noteq> Some a" by (simp add: rc_live_def)
  with assms(2) show False by simp
qed

lemma inv_rc_local:
  assumes inv: "inv_rc k s" and k: "Suc k < 4294967295"
    and T: "threads_rc s' = (threads_rc s)(i := th')"
    and R: "role_rc th' = roles_rc s i"
    and E: "(\<forall>a. roles_rc s i \<noteq> Wins a \<and> roles_rc s i \<noteq> Owns a) \<or>
            t_rc th' = t_rc (threads_rc s i)"
    and N: "nodes_rc s' = nodes_rc s" and Hp: "heap_rc s' = heap_rc s"
    and Hd: "head_rc s' = head_rc s \<or> (p_rc (head_rc s) = None \<and> p_rc (head_rc s') = None)"
  shows "inv_rc (Suc k) s'"
proof -
  from T R have ro: "roles_rc s' = roles_rc s" by (rule roles_rc_sameI)
  have "rc_inv (Suc k) (roles_rc s) (exts_rc s') (nodes_rc s) (head_rc s') (heap_rc s)"
  proof (rule rc_inv_we [OF inv [unfolded inv_rc_def] k])
    fix j a assume w: "roles_rc s j = Wins a \<or> roles_rc s j = Owns a"
    show "exts_rc s' j = exts_rc s j"
    proof (cases "j = i")
      case True
      with w E have "t_rc th' = t_rc (threads_rc s i)" by auto
      with True T show ?thesis by (simp add: exts_rc_def)
    next
      case False
      with T show ?thesis by (simp add: exts_rc_def)
    qed
  next
    show "head_rc s' = head_rc s \<or> (p_rc (head_rc s) = None \<and> p_rc (head_rc s') = None)"
      by (rule Hd)
  qed
  then show ?thesis by (simp add: inv_rc_def ro N Hp)
qed

lemma inv_rc_Suc:
  assumes "inv_rc k s" and "Suc k < 4294967295"
  shows "inv_rc (Suc k) s"
proof -
  have "rc_inv (Suc k) (roles_rc s) (exts_rc s) (nodes_rc s) (head_rc s) (heap_rc s)"
    by (rule rc_inv_we [OF assms(1) [unfolded inv_rc_def] assms(2)]) simp_all
  then show ?thesis by (simp add: inv_rc_def)
qed

lemma call_rc_inv:
  assumes inv: "inv_rc k s" and k: "Suc k < 4294967295"
  shows "inv_rc (Suc k) (call_rc i c s)"
proof (cases "pc_rc (threads_rc s i) = Idle_rc")
  case False
  then have "call_rc i c s = s" by (simp add: call_rc_def)
  with inv_rc_Suc [OF inv k] show ?thesis by simp
next
  case True
  then have r: "roles_rc s i = NoRole" by (simp add: roles_rc_def role_rc_def)
  from True obtain th' where T: "threads_rc (call_rc i c s) = (threads_rc s)(i := th')"
    and R: "role_rc th' = NoRole"
    and N: "nodes_rc (call_rc i c s) = nodes_rc s" and Hp: "heap_rc (call_rc i c s) = heap_rc s"
    and Hd: "head_rc (call_rc i c s) = head_rc s"
    by (cases c) (simp_all add: call_rc_def role_rc_def)
  show ?thesis
    by (rule inv_rc_local [OF inv k T _ _ N Hp]) (simp_all add: R r Hd)
qed

lemma step_rc_idle:
  assumes inv: "inv_rc k s" and k: "Suc k < 4294967295"
    and pc: "pc_rc (threads_rc s i) = Idle_rc \<or> pc_rc (threads_rc s i) = UB_rc"
  shows "inv_rc (Suc k) (step_rc i s)"
proof -
  from pc have "step_rc i s = s" by (auto simp: step_rc_def)
  with inv_rc_Suc [OF inv k] show ?thesis by simp
qed

lemma step_rc_push_105:
  assumes inv: "inv_rc k s" and k: "Suc k < 4294967295"
    and pc: "pc_rc (threads_rc s i) = push_105"
  shows "inv_rc (Suc k) (step_rc i s)"
proof (cases "operator_new (heap_rc s)")
  case None
  from pc have r: "roles_rc s i = NoRole" by (simp add: roles_rc_def role_rc_def)
  from pc None have s': "step_rc i s = leave_rc i (Threw bad_alloc) s"
    by (simp add: step_rc_def)
  show ?thesis unfolding s'
    by (rule inv_rc_local [OF inv k leave_rc_simps(1)]) (simp_all add: r role_rc_def)
next
  case (Some ah)
  obtain a h where ah: "ah = (a, h)" by (cases ah)
  from pc have r: "roles_rc s i = NoRole" by (simp add: roles_rc_def role_rc_def)
  define n0 :: "'a Node_rc" where
    "n0 = \<lparr>v_rc = arg_rc (threads_rc s i), inner_cnt = 0,
           next_rc = \<lparr>external_cnt = 0, p_rc = None\<rparr>\<rparr>"
  define th' where
    "th' = (threads_rc s i)\<lparr>pc_rc := push_109, t_rc := \<lparr>external_cnt = 1, p_rc = Some a\<rparr>\<rparr>"
  from pc Some ah have T: "threads_rc (step_rc i s) = (threads_rc s)(i := th')"
    and N: "nodes_rc (step_rc i s) = (nodes_rc s)(a \<mapsto> n0)"
    and Hd: "head_rc (step_rc i s) = head_rc s"
    and Hp: "heap_rc (step_rc i s) = h"
    by (simp_all add: step_rc_def n0_def th'_def Let_def)
  have ro: "roles_rc (step_rc i s) = (roles_rc s)(i := Owns a)"
    by (rule roles_rc_eqI [OF T]) (simp add: role_rc_def th'_def)
  have new: "operator_new (heap_rc s) = Some (a, h)" using Some ah by simp
  have i0: "inner_cnt n0 = 0" by (simp add: n0_def)
  have e1: "exts_rc (step_rc i s) i = 1" using T by (simp add: exts_rc_def th'_def)
  show ?thesis unfolding inv_rc_def ro N Hd Hp
    by (rule rc_inv_alloc [where we' = "exts_rc (step_rc i s)", OF inv [unfolded inv_rc_def] k r new i0 e1])
      (rule exts_rc_other [OF T])
qed

lemma owner_rc:
  assumes inv: "inv_rc k s"
    and pc: "pc_rc (threads_rc s i) = push_109 \<or> pc_rc (threads_rc s i) = push_110"
  shows "\<exists>a n. p_rc (t_rc (threads_rc s i)) = Some a \<and> roles_rc s i = Owns a \<and>
           nodes_rc s a = Some n"
proof -
  from inv_rc_role [OF inv, of i] pc obtain a where
    a: "p_rc (t_rc (threads_rc s i)) = Some a" and r: "roles_rc s i = Owns a"
    by (auto simp: roles_rc_def role_rc_def split: option.splits)
  from r have "role_node (roles_rc s i) = Some a" by simp
  from inv_rc_live [OF inv this] a r show ?thesis by blast
qed

lemma step_rc_push_109:
  assumes inv: "inv_rc k s" and k: "Suc k < 4294967295"
    and pc: "pc_rc (threads_rc s i) = push_109"
  shows "inv_rc (Suc k) (step_rc i s)"
proof -
  from owner_rc [OF inv, of i] pc obtain a n where
    a: "p_rc (t_rc (threads_rc s i)) = Some a" and r: "roles_rc s i = Owns a"
    and n: "nodes_rc s a = Some n" by auto
  define th' where "th' = (threads_rc s i)\<lparr>pc_rc := push_110\<rparr>"
  define n' where "n' = n\<lparr>next_rc := head_rc s\<rparr>"
  from pc a n have T: "threads_rc (step_rc i s) = (threads_rc s)(i := th')"
    and N: "nodes_rc (step_rc i s) = (nodes_rc s)(a \<mapsto> n')"
    and Hd: "head_rc (step_rc i s) = head_rc s"
    and Hp: "heap_rc (step_rc i s) = heap_rc s"
    by (simp_all add: step_rc_def n'_def th'_def)
  have ro: "roles_rc (step_rc i s) = roles_rc s"
    by (rule roles_rc_sameI [OF T]) (simp add: r role_rc_def th'_def a)
  have ex: "exts_rc (step_rc i s) = exts_rc s"
    by (rule exts_rc_sameI [OF T]) (simp add: th'_def)
  show ?thesis unfolding inv_rc_def ro ex N Hd Hp
    by (rule rc_inv_next [OF inv [unfolded inv_rc_def] k r n]) (simp add: n'_def)
qed

lemma step_rc_push_110:
  assumes inv: "inv_rc k s" and k: "Suc k < 4294967295"
    and pc: "pc_rc (threads_rc s i) = push_110"
  shows "inv_rc (Suc k) (step_rc i s)"
proof -
  from owner_rc [OF inv, of i] pc obtain a n where
    a: "p_rc (t_rc (threads_rc s i)) = Some a" and r: "roles_rc s i = Owns a"
    and n: "nodes_rc s a = Some n" by auto
  show ?thesis
  proof (cases "head_rc s = next_rc n")
    case True
    define th' where "th' = (threads_rc s i)\<lparr>pc_rc := Idle_rc, in_destructor := False,
      outcomes_rc := outcomes_rc (threads_rc s i) @ [Returned_void]\<rparr>"
    from pc a n True have T: "threads_rc (step_rc i s) = (threads_rc s)(i := th')"
      and N: "nodes_rc (step_rc i s) = nodes_rc s"
      and Hd: "head_rc (step_rc i s) = t_rc (threads_rc s i)"
      and Hp: "heap_rc (step_rc i s) = heap_rc s"
      by (simp_all add: step_rc_def th'_def compare_exchange_def)
    have ro: "roles_rc (step_rc i s) = (roles_rc s)(i := NoRole)"
      by (rule roles_rc_eqI [OF T]) (simp add: role_rc_def th'_def)
    have ex: "exts_rc (step_rc i s) = exts_rc s"
      by (rule exts_rc_sameI [OF T]) (simp add: th'_def)
    show ?thesis unfolding inv_rc_def ro ex N Hd Hp
      by (rule rc_inv_link [OF inv [unfolded inv_rc_def] k r n]) (simp_all add: True a exts_rc_def)
  next
    case False
    define n' where "n' = n\<lparr>next_rc := head_rc s\<rparr>"
    from pc a n False have T: "threads_rc (step_rc i s) = threads_rc s"
      and N: "nodes_rc (step_rc i s) = (nodes_rc s)(a \<mapsto> n')"
      and Hd: "head_rc (step_rc i s) = head_rc s"
      and Hp: "heap_rc (step_rc i s) = heap_rc s"
      by (simp_all add: step_rc_def n'_def compare_exchange_def)
    from T have ro: "roles_rc (step_rc i s) = roles_rc s" by (simp add: roles_rc_def [abs_def])
    from T have ex: "exts_rc (step_rc i s) = exts_rc s" by (simp add: exts_rc_def [abs_def])
    show ?thesis unfolding inv_rc_def ro ex N Hd Hp
      by (rule rc_inv_next [OF inv [unfolded inv_rc_def] k r n]) (simp add: n'_def)
  qed
qed

lemma step_rc_pop_116:
  assumes inv: "inv_rc k s" and k: "Suc k < 4294967295"
    and pc: "pc_rc (threads_rc s i) = pop_116"
  shows "inv_rc (Suc k) (step_rc i s)"
proof -
  from pc have r: "roles_rc s i = NoRole" by (simp add: roles_rc_def role_rc_def)
  from pc have s': "step_rc i s =
      set_thread_rc i ((threads_rc s i)\<lparr>pc_rc := pop_118, t_rc := head_rc s\<rparr>) s"
    by (simp add: step_rc_def)
  show ?thesis unfolding s'
    by (rule inv_rc_local [OF inv k set_thread_rc_simps(1)]) (simp_all add: r role_rc_def)
qed

lemma step_rc_pop_118:
  assumes inv: "inv_rc k s" and k: "Suc k < 4294967295"
    and pc: "pc_rc (threads_rc s i) = pop_118"
  shows "inv_rc (Suc k) (step_rc i s)"
proof -
  from pc have r: "roles_rc s i = NoRole" by (simp add: roles_rc_def role_rc_def)
  show ?thesis
  proof (cases "head_rc s = t_rc (threads_rc s i)")
    case False
    from pc False have s': "step_rc i s =
        set_thread_rc i ((threads_rc s i)\<lparr>t_rc := head_rc s\<rparr>) s"
      by (simp add: step_rc_def compare_exchange_def Let_def)
    show ?thesis unfolding s'
      by (rule inv_rc_local [OF inv k set_thread_rc_simps(1)]) (simp_all add: r role_rc_def pc)
  next
    case True
    define t' where "t' = (head_rc s)\<lparr>external_cnt := external_cnt (head_rc s) + 1\<rparr>"
    define th' where "th' = (threads_rc s i)\<lparr>pc_rc := pop_119, t_rc := t'\<rparr>"
    from pc True have T: "threads_rc (step_rc i s) = (threads_rc s)(i := th')"
      and N: "nodes_rc (step_rc i s) = nodes_rc s"
      and Hd: "head_rc (step_rc i s) = t'"
      and Hp: "heap_rc (step_rc i s) = heap_rc s"
      by (simp_all add: step_rc_def th'_def t'_def compare_exchange_def Let_def)
    show ?thesis
    proof (cases "p_rc (head_rc s)")
      case None
      show ?thesis
        by (rule inv_rc_local [OF inv k T _ _ N Hp])
          (simp_all add: r role_rc_def th'_def t'_def None Hd)
    next
      case (Some a)
      have ro: "roles_rc (step_rc i s) = (roles_rc s)(i := Holds a)"
        by (rule roles_rc_eqI [OF T]) (simp add: role_rc_def th'_def t'_def Some)
      show ?thesis unfolding inv_rc_def ro N Hd Hp t'_def
        by (rule rc_inv_inc [OF inv [unfolded inv_rc_def] k r Some]) (rule exts_rc_other [OF T])
    qed
  qed
qed

lemma pop_return_rc_threads:
  "\<exists>th'. threads_rc (pop_return_rc i res s) = (threads_rc s)(i := th') \<and>
     role_rc th' = NoRole \<and> t_rc th' = t_rc (threads_rc s i)"
proof (cases "in_destructor (threads_rc s i) \<and> res \<noteq> None")
  case True
  define th' where "th' = (threads_rc s i)\<lparr>pc_rc := pop_116\<rparr>"
  from True have "threads_rc (pop_return_rc i res s) = (threads_rc s)(i := th')"
    by (simp add: pop_return_rc_def th'_def)
  moreover have "role_rc th' = NoRole" by (simp add: role_rc_def th'_def)
  moreover have "t_rc th' = t_rc (threads_rc s i)" by (simp add: th'_def)
  ultimately show ?thesis by blast
next
  case False
  then have "\<exists>r. pop_return_rc i res s = leave_rc i r s"
    by (cases "in_destructor (threads_rc s i)") (auto simp: pop_return_rc_def)
  then obtain r where r: "pop_return_rc i res s = leave_rc i r s" ..
  define th' where "th' = (threads_rc s i)\<lparr>pc_rc := Idle_rc, in_destructor := False,
         outcomes_rc := outcomes_rc (threads_rc s i) @ [r]\<rparr>"
  from r have "threads_rc (pop_return_rc i res s) = (threads_rc s)(i := th')"
    by (simp add: th'_def)
  moreover have "role_rc th' = NoRole" by (simp add: role_rc_def th'_def)
  moreover have "t_rc th' = t_rc (threads_rc s i)" by (simp add: th'_def)
  ultimately show ?thesis by blast
qed

lemma pop_return_rc_props:
  "nodes_rc (pop_return_rc i res s) = nodes_rc s"
  "head_rc (pop_return_rc i res s) = head_rc s"
  "heap_rc (pop_return_rc i res s) = heap_rc s"
  by (simp_all add: pop_return_rc_def)

lemma step_rc_pop_119:
  assumes inv: "inv_rc k s" and k: "Suc k < 4294967295"
    and pc: "pc_rc (threads_rc s i) = pop_119"
  shows "inv_rc (Suc k) (step_rc i s)"
proof (cases "p_rc (t_rc (threads_rc s i))")
  case None
  with pc have r: "roles_rc s i = NoRole" by (simp add: roles_rc_def role_rc_def)
  define s0 where "s0 = set_thread_rc i ((threads_rc s i)\<lparr>p_local_rc := None\<rparr>) s"
  from pc None have s': "step_rc i s = pop_return_rc i None s0"
    by (simp add: step_rc_def s0_def)
  from pop_return_rc_threads [of i None s0] obtain th' where
    th': "threads_rc (pop_return_rc i None s0) = (threads_rc s0)(i := th')"
    "role_rc th' = NoRole" by blast
  from th'(1) have T: "threads_rc (step_rc i s) = (threads_rc s)(i := th')"
    by (simp add: s' s0_def)
  show ?thesis
    by (rule inv_rc_local [OF inv k T])
      (simp_all add: r th'(2) s' pop_return_rc_props s0_def)
next
  case (Some a)
  with pc have r: "roles_rc s i = Holds a" by (simp add: roles_rc_def role_rc_def)
  then have "role_node (roles_rc s i) = Some a" by simp
  from inv_rc_live [OF inv this] obtain n where n: "nodes_rc s a = Some n" by blast
  show ?thesis
  proof (cases "head_rc s = t_rc (threads_rc s i)")
    case True
    define th' where "th' = (threads_rc s i)\<lparr>pc_rc := pop_125, p_local_rc := Some a\<rparr>"
    from pc Some n True have T: "threads_rc (step_rc i s) = (threads_rc s)(i := th')"
      and N: "nodes_rc (step_rc i s) = nodes_rc s"
      and Hd: "head_rc (step_rc i s) = next_rc n"
      and Hp: "heap_rc (step_rc i s) = heap_rc s"
      by (simp_all add: step_rc_def th'_def compare_exchange_def)
    have ro: "roles_rc (step_rc i s) = (roles_rc s)(i := Wins a)"
      by (rule roles_rc_eqI [OF T]) (simp add: role_rc_def th'_def)
    have ex: "exts_rc (step_rc i s) = exts_rc s"
      by (rule exts_rc_sameI [OF T]) (simp add: th'_def)
    show ?thesis unfolding inv_rc_def ro ex N Hd Hp
      by (rule rc_inv_detach [OF inv [unfolded inv_rc_def] k r _ n])
        (simp_all add: True Some exts_rc_def)
  next
    case False
    define th' where "th' = (threads_rc s i)\<lparr>pc_rc := pop_136, p_local_rc := Some a,
      t_rc := head_rc s\<rparr>"
    from pc Some n False have s': "step_rc i s = set_thread_rc i th' s"
      by (simp add: step_rc_def th'_def compare_exchange_def)
    show ?thesis unfolding s'
      by (rule inv_rc_local [OF inv k set_thread_rc_simps(1)])
        (simp_all add: r role_rc_def th'_def)
  qed
qed

lemma step_rc_pop_125:
  assumes inv: "inv_rc k s" and k: "Suc k < 4294967295"
    and pc: "pc_rc (threads_rc s i) = pop_125"
  shows "inv_rc (Suc k) (step_rc i s)"
proof -
  from inv_rc_role [OF inv, of i] pc obtain a where
    a: "p_local_rc (threads_rc s i) = Some a" and r: "roles_rc s i = Wins a"
    by (auto simp: roles_rc_def role_rc_def split: option.splits)
  from r have "role_node (roles_rc s i) = Some a" by simp
  from inv_rc_live [OF inv this] obtain n where n: "nodes_rc s a = Some n" by blast
  define cnt where "cnt = exts_rc s i - 2"
  define n' where "n' = n\<lparr>v_rc := None, inner_cnt := inner_cnt n + cnt\<rparr>"
  define s1 where "s1 = s\<lparr>nodes_rc := (nodes_rc s)(a \<mapsto> n')\<rparr>"
  define s2 where "s2 = (if inner_cnt n = - cnt then delete_Node_rc a s1 else s1)"
  from pc a n have s': "step_rc i s = pop_return_rc i (v_rc n) s2"
    by (simp add: step_rc_def pop_detached_def Let_def s2_def s1_def n'_def cnt_def exts_rc_def)
  from pop_return_rc_threads [of i "v_rc n" s2] obtain th' where
    th': "threads_rc (pop_return_rc i (v_rc n) s2) = (threads_rc s2)(i := th')"
    "role_rc th' = NoRole" "t_rc th' = t_rc (threads_rc s2 i)" by blast
  have t2: "threads_rc s2 = threads_rc s" by (simp add: s2_def s1_def)
  from th'(1) have T: "threads_rc (step_rc i s) = (threads_rc s)(i := th')" by (simp add: s' t2)
  have ro: "roles_rc (step_rc i s) = (roles_rc s)(i := NoRole)"
    by (rule roles_rc_eqI [OF T th'(2)])
  have ex: "exts_rc (step_rc i s) = exts_rc s"
    by (rule exts_rc_sameI [OF T]) (simp add: th'(3) t2)
  have Hd: "head_rc (step_rc i s) = head_rc s"
    by (simp add: s' pop_return_rc_props s2_def s1_def)
  show ?thesis
  proof (cases "inner_cnt n = - cnt")
    case True
    then have N: "nodes_rc (step_rc i s) = (nodes_rc s)(a := None)"
      and Hp: "heap_rc (step_rc i s) = operator_delete a (heap_rc s)"
      by (simp_all add: s' pop_return_rc_props s2_def s1_def)
    show ?thesis unfolding inv_rc_def ro ex N Hd Hp
      by (rule rc_inv_settle_delete [OF inv [unfolded inv_rc_def] k r n])
        (use True in \<open>simp add: cnt_def\<close>)
  next
    case False
    then have N: "nodes_rc (step_rc i s) = (nodes_rc s)(a \<mapsto> n')"
      and Hp: "heap_rc (step_rc i s) = heap_rc s"
      by (simp_all add: s' pop_return_rc_props s2_def s1_def)
    show ?thesis unfolding inv_rc_def ro ex N Hd Hp
      by (rule rc_inv_settle_keep [OF inv [unfolded inv_rc_def] k r n])
        (use False in \<open>simp_all add: cnt_def n'_def\<close>)
  qed
qed

lemma step_rc_pop_136:
  assumes inv: "inv_rc k s" and k: "Suc k < 4294967295"
    and pc: "pc_rc (threads_rc s i) = pop_136"
  shows "inv_rc (Suc k) (step_rc i s)"
proof -
  from inv_rc_role [OF inv, of i] pc obtain a where
    a: "p_local_rc (threads_rc s i) = Some a" and r: "roles_rc s i = Holds a"
    by (auto simp: roles_rc_def role_rc_def split: option.splits)
  from r have "role_node (roles_rc s i) = Some a" by simp
  from inv_rc_live [OF inv this] obtain n where n: "nodes_rc s a = Some n" by blast
  define th' where "th' = (threads_rc s i)\<lparr>pc_rc := pop_118\<rparr>"
  define n' where "n' = n\<lparr>inner_cnt := inner_cnt n - 1\<rparr>"
  from pc a n have s': "step_rc i s = set_thread_rc i th' (pop_lost a n s)"
    by (simp add: step_rc_def th'_def)
  have T: "threads_rc (step_rc i s) = (threads_rc s)(i := th')"
    and Hd: "head_rc (step_rc i s) = head_rc s"
    by (simp_all add: s' pop_lost_def Let_def)
  have ro: "roles_rc (step_rc i s) = (roles_rc s)(i := NoRole)"
    by (rule roles_rc_eqI [OF T]) (simp add: role_rc_def th'_def)
  have ex: "exts_rc (step_rc i s) = exts_rc s"
    by (rule exts_rc_sameI [OF T]) (simp add: th'_def)
  show ?thesis
  proof (cases "inner_cnt n = 1")
    case True
    then have N: "nodes_rc (step_rc i s) = (nodes_rc s)(a := None)"
      and Hp: "heap_rc (step_rc i s) = operator_delete a (heap_rc s)"
      by (simp_all add: s' pop_lost_def Let_def)
    show ?thesis unfolding inv_rc_def ro ex N Hd Hp
      by (rule rc_inv_release_delete [OF inv [unfolded inv_rc_def] k r n True])
  next
    case False
    then have N: "nodes_rc (step_rc i s) = (nodes_rc s)(a \<mapsto> n')"
      and Hp: "heap_rc (step_rc i s) = heap_rc s"
      by (simp_all add: s' pop_lost_def Let_def n'_def)
    show ?thesis unfolding inv_rc_def ro ex N Hd Hp
      by (rule rc_inv_release_keep [OF inv [unfolded inv_rc_def] k r n False])
        (simp_all add: n'_def)
  qed
qed

lemma step_rc_inv:
  assumes inv: "inv_rc k s" and k: "Suc k < 4294967295"
  shows "inv_rc (Suc k) (step_rc i s)"
proof (cases "pc_rc (threads_rc s i)")
  case Idle_rc
  then show ?thesis by (intro step_rc_idle [OF inv k]) simp
next
  case push_105
  then show ?thesis by (rule step_rc_push_105 [OF inv k])
next
  case push_109
  then show ?thesis by (rule step_rc_push_109 [OF inv k])
next
  case push_110
  then show ?thesis by (rule step_rc_push_110 [OF inv k])
next
  case pop_116
  then show ?thesis by (rule step_rc_pop_116 [OF inv k])
next
  case pop_118
  then show ?thesis by (rule step_rc_pop_118 [OF inv k])
next
  case pop_119
  then show ?thesis by (rule step_rc_pop_119 [OF inv k])
next
  case pop_125
  then show ?thesis by (rule step_rc_pop_125 [OF inv k])
next
  case pop_136
  then show ?thesis by (rule step_rc_pop_136 [OF inv k])
next
  case UB_rc
  then show ?thesis by (intro step_rc_idle [OF inv k]) simp
qed

lemma event_rc_inv:
  assumes "inv_rc k s" and "Suc k < 4294967295"
  shows "inv_rc (Suc k) (event_rc e s)"
  using assms by (cases e) (simp_all add: call_rc_inv step_rc_inv)

lemma exec_rc_inv:
  "inv_rc k s \<Longrightarrow> k + length es < 4294967295 \<Longrightarrow> inv_rc (k + length es) (exec_rc es s)"
proof (induction es arbitrary: k s)
  case Nil
  then show ?case by (simp add: exec_rc_def)
next
  case (Cons e es)
  from Cons.prems have "inv_rc (Suc k) (event_rc e s)" by (intro event_rc_inv) simp_all
  from Cons.IH [OF this] Cons.prems(2) show ?case by (simp add: exec_rc_def)
qed

lemma inv_rc_init: "inv_rc 0 (init_rc cells :: 'a state_rc)"
proof -
  have ro: "roles_rc (init_rc cells) = (\<lambda>i. NoRole)"
    by (rule ext) (simp add: roles_rc_def init_rc_def thread_init_rc_def role_rc_def)
  have "rc_bound 0 (\<lambda>i. NoRole)" by (simp add: rc_bound_def rc_busy_def)
  moreover have "rc_shape 0 (\<lambda>i. NoRole) we (Map.empty :: addr \<rightharpoonup> 'a Node_rc)
      \<lparr>external_cnt = 0, p_rc = None\<rparr>" for we
    unfolding rc_shape_def by (rule exI [of _ "[]"]) simp
  moreover have "rc_live (\<lambda>i. NoRole) (Map.empty :: addr \<rightharpoonup> 'a Node_rc)" by (simp add: rc_live_def)
  moreover have "heap_ok (Map.empty :: addr \<rightharpoonup> 'a Node_rc) \<lparr>next_addr = 0, capacity = cells, freed = []\<rparr>"
    by (simp add: heap_ok_def)
  ultimately show ?thesis by (simp add: inv_rc_def rc_inv_def ro) (simp add: init_rc_def)
qed

lemma step_rc_others: "j \<noteq> i \<Longrightarrow> threads_rc (step_rc i s) j = threads_rc s j"
  by (simp add: step_rc_def Let_def pop_return_rc_def pop_detached_def pop_lost_def
      compare_exchange_def split: pc_rc.splits option.splits)

lemma call_rc_others: "j \<noteq> i \<Longrightarrow> threads_rc (call_rc i c s) j = threads_rc s j"
  by (simp add: call_rc_def Let_def split: op.splits)

lemma exec_rc_others:
  "\<forall>e \<in> set es. e \<noteq> Step i \<and> (\<forall>c. e \<noteq> Call i c) \<Longrightarrow>
     threads_rc (exec_rc es s) i = threads_rc s i"
proof (induction es arbitrary: s)
  case Nil
  then show ?case by (simp add: exec_rc_def)
next
  case (Cons e es)
  from Cons.prems have 1: "\<forall>e \<in> set es. e \<noteq> Step i \<and> (\<forall>c. e \<noteq> Call i c)"
    and 2: "e \<noteq> Step i" "\<And>c. e \<noteq> Call i c" by simp_all
  have "threads_rc (event_rc e s) i = threads_rc s i"
  proof (cases e)
    case (Call j c)
    with 2(2) [of c] have "i \<noteq> j" by auto
    with Call show ?thesis by (simp add: call_rc_others)
  next
    case (Step j)
    with 2(1) have "i \<noteq> j" by auto
    with Step show ?thesis by (simp add: step_rc_others)
  qed
  with Cons.IH [OF 1, of "event_rc e s"] show ?case by (simp add: exec_rc_def)
qed

lemma reachable_inv_rc:
  "length es < 4294967295 \<Longrightarrow> inv_rc (length es) (exec_rc es (init_rc cells))"
  using exec_rc_inv [OF inv_rc_init, of es cells] by simp

lemma inv_rc_quiescent:
  assumes inv: "inv_rc k s" and idle: "\<forall>i. pc_rc (threads_rc s i) = Idle_rc"
  shows "\<exists>as. linked_rc (\<lambda>a e n. True) (nodes_rc s) (head_rc s) as \<and> distinct as \<and>
           set as \<inter> set (freed (heap_rc s)) = {} \<and>
           set as \<union> set (freed (heap_rc s)) = {..<next_addr (heap_rc s)}"
proof -
  from inv have sh: "rc_shape k (roles_rc s) (exts_rc s) (nodes_rc s) (head_rc s)"
    and hk: "heap_ok (nodes_rc s) (heap_rc s)" by (simp_all add: inv_rc_def rc_inv_def)
  from sh obtain as where as: "distinct as"
    "linked_rc (linked_ok k (roles_rc s)) (nodes_rc s) (head_rc s) as"
    "\<forall>a n. nodes_rc s a = Some n \<longrightarrow> a \<notin> set as \<longrightarrow> detached_ok k (roles_rc s) (exts_rc s) a n"
    unfolding rc_shape_def by blast
  from hk have e: "\<And>a. (nodes_rc s a = None) =
      (a \<in> set (freed (heap_rc s)) \<or> next_addr (heap_rc s) \<le> a)"
    and l: "\<forall>a \<in> set (freed (heap_rc s)). a < next_addr (heap_rc s)"
    by (simp_all add: heap_ok_def)
  from idle have ro: "\<And>i. roles_rc s i = NoRole" by (simp add: roles_rc_def role_rc_def)
  then have em: "holders (roles_rc s) a = {}" "winners (roles_rc s) a = {}" "owners (roles_rc s) a = {}" for a
    by (simp_all add: holders_def winners_def owners_def)
  have "linked_rc (\<lambda>a e n. True) (nodes_rc s) (head_rc s) as"
    by (rule linked_rc_mono [OF as(2)]) simp
  moreover have "set as \<inter> set (freed (heap_rc s)) = {}"
  proof (rule ccontr)
    assume "set as \<inter> set (freed (heap_rc s)) \<noteq> {}"
    then obtain a where a: "a \<in> set as" "a \<in> set (freed (heap_rc s))" by blast
    from linked_rc_member [OF as(2) a(1)] obtain n where "nodes_rc s a = Some n" by blast
    with e [of a] a(2) show False by simp
  qed
  moreover have "set as \<union> set (freed (heap_rc s)) = {..<next_addr (heap_rc s)}"
  proof (rule set_eqI)
    fix a
    show "(a \<in> set as \<union> set (freed (heap_rc s))) = (a \<in> {..<next_addr (heap_rc s)})"
    proof (cases "nodes_rc s a")
      case None
      have "a \<notin> set as"
      proof
        assume "a \<in> set as"
        from linked_rc_member [OF as(2) this] None show False by simp
      qed
      with e [of a] None l show ?thesis by auto
    next
      case (Some n)
      have "a \<in> set as"
      proof (rule ccontr)
        assume "a \<notin> set as"
        with as(3) Some have "detached_ok k (roles_rc s) (exts_rc s) a n" by simp
        then show False by (simp add: detached_ok_def em)
      qed
      with e [of a] Some show ?thesis by auto
    qed
  qed
  ultimately show ?thesis using as(1) by blast
qed

lemma step_rc_pop_125_effect:
  assumes "pc_rc (threads_rc s i) = pop_125" and "p_local_rc (threads_rc s i) = Some a"
    and "nodes_rc s a = Some n"
  shows "freed (heap_rc (step_rc i s)) =
      (if inner_cnt n + (external_cnt (t_rc (threads_rc s i)) - 2) = 0
       then freed (heap_rc s) @ [a] else freed (heap_rc s))"
    and "nodes_rc (step_rc i s) a =
      (if inner_cnt n + (external_cnt (t_rc (threads_rc s i)) - 2) = 0 then None
       else Some (n\<lparr>v_rc := None,
              inner_cnt := inner_cnt n + (external_cnt (t_rc (threads_rc s i)) - 2)\<rparr>))"
  using assms
  by (simp_all add: step_rc_def pop_detached_def Let_def pop_return_rc_props w_eq_neg
      operator_delete_def)

lemma step_rc_pop_136_effect:
  assumes "pc_rc (threads_rc s i) = pop_136" and "p_local_rc (threads_rc s i) = Some a"
    and "nodes_rc s a = Some n"
  shows "freed (heap_rc (step_rc i s)) =
      (if inner_cnt n - 1 = 0 then freed (heap_rc s) @ [a] else freed (heap_rc s))"
    and "nodes_rc (step_rc i s) a =
      (if inner_cnt n - 1 = 0 then None else Some (n\<lparr>inner_cnt := inner_cnt n - 1\<rparr>))"
  using assms
  by (simp_all add: step_rc_def pop_lost_def Let_def operator_delete_def)

lemma inv_rc_local_node:
  assumes inv: "inv_rc k s"
    and pc: "pc_rc (threads_rc s i) = pop_125 \<or> pc_rc (threads_rc s i) = pop_136"
  shows "\<exists>a n. p_local_rc (threads_rc s i) = Some a \<and> nodes_rc s a = Some n \<and>
           a \<notin> set (freed (heap_rc s))"
proof -
  from inv_rc_role [OF inv, of i] pc obtain a where
    a: "p_local_rc (threads_rc s i) = Some a" and r: "role_node (roles_rc s i) = Some a"
    by (auto simp: roles_rc_def role_rc_def split: option.splits)
  from inv_rc_live [OF inv r] obtain n where n: "nodes_rc s a = Some n" by blast
  from inv have "heap_ok (nodes_rc s) (heap_rc s)" by (simp add: inv_rc_def rc_inv_def)
  then have "(nodes_rc s a = None) = (a \<in> set (freed (heap_rc s)) \<or> next_addr (heap_rc s) \<le> a)"
    by (simp add: heap_ok_def)
  with n have "a \<notin> set (freed (heap_rc s))" by simp
  with a n show ?thesis by blast
qed

lemma destructor_turn:
  assumes pc: "pc_rc (threads_rc s i) = pop_116" and d: "in_destructor (threads_rc s i)"
    and h: "p_rc (head_rc s) = Some a" and n: "nodes_rc s a = Some n" and v: "v_rc n \<noteq> None"
    and c: "external_cnt (head_rc s) + inner_cnt n = 1"
  shows "\<exists>s'. run_rc i s = run_rc i s' \<and> pc_rc (threads_rc s' i) = pop_116 \<and>
     in_destructor (threads_rc s' i) \<and> head_rc s' = next_rc n \<and>
     nodes_rc s' = (nodes_rc s)(a := None) \<and> heap_rc s' = operator_delete a (heap_rc s) \<and>
     outcomes_rc (threads_rc s' i) = outcomes_rc (threads_rc s i)"
proof -
  define s1 where "s1 = step_rc i s"
  have s1: "pc_rc (threads_rc s1 i) = pop_118" "in_destructor (threads_rc s1 i)"
    "t_rc (threads_rc s1 i) = head_rc s" "head_rc s1 = head_rc s" "nodes_rc s1 = nodes_rc s"
    "outcomes_rc (threads_rc s1 i) = outcomes_rc (threads_rc s i)" "heap_rc s1 = heap_rc s"
    using pc d by (simp_all add: s1_def step_rc_def)
  have r1: "run_rc i s = run_rc i s1"
    using run_rc_step [of s i] pc by (simp add: s1_def)
  define s2 where "s2 = step_rc i s1"
  have s2: "pc_rc (threads_rc s2 i) = pop_119" "in_destructor (threads_rc s2 i)"
    "t_rc (threads_rc s2 i) = head_rc s2" "p_rc (head_rc s2) = Some a" "nodes_rc s2 = nodes_rc s"
    "outcomes_rc (threads_rc s2 i) = outcomes_rc (threads_rc s i)" "heap_rc s2 = heap_rc s"
    "external_cnt (head_rc s2) = external_cnt (head_rc s) + 1"
    using s1 h by (simp_all add: s2_def step_rc_def Let_def compare_exchange_def)
  have r2: "run_rc i s1 = run_rc i s2"
    using run_rc_step [of s1 i] s1(1) by (simp add: s2_def)
  define s3 where "s3 = step_rc i s2"
  have s3: "pc_rc (threads_rc s3 i) = pop_125" "in_destructor (threads_rc s3 i)"
    "p_local_rc (threads_rc s3 i) = Some a" "head_rc s3 = next_rc n" "nodes_rc s3 = nodes_rc s"
    "outcomes_rc (threads_rc s3 i) = outcomes_rc (threads_rc s i)" "heap_rc s3 = heap_rc s"
    "external_cnt (t_rc (threads_rc s3 i)) = external_cnt (head_rc s) + 1"
    using s2 n by (simp_all add: s3_def step_rc_def Let_def compare_exchange_def)
  have r3: "run_rc i s2 = run_rc i s3"
    using run_rc_step [of s2 i] s2(1) by (simp add: s3_def)
  have "inner_cnt n + (external_cnt (head_rc s) + 1 - 2) = (external_cnt (head_rc s) + inner_cnt n) - 1"
    by simp
  also have "\<dots> = 0" by (simp only: c) simp
  finally have z: "inner_cnt n = - (external_cnt (t_rc (threads_rc s3 i)) - 2)"
    by (simp only: s3(8) w_eq_neg)
  define s4 where "s4 = step_rc i s3"
  have s4: "pc_rc (threads_rc s4 i) = pop_116" "in_destructor (threads_rc s4 i)"
    "head_rc s4 = next_rc n" "nodes_rc s4 = (nodes_rc s)(a := None)"
    "heap_rc s4 = operator_delete a (heap_rc s)"
    "outcomes_rc (threads_rc s4 i) = outcomes_rc (threads_rc s i)"
    using s3(1-7) n v z
    by (auto simp: s4_def step_rc_def Let_def pop_detached_def pop_return_rc_def)
  have r4: "run_rc i s3 = run_rc i s4"
    using run_rc_step [of s3 i] s3(1) by (simp add: s4_def)
  from r1 r2 r3 r4 s4 show ?thesis by auto
qed

lemma destructor_loop:
  assumes "linked_rc (\<lambda>a e n. e + inner_cnt n = 1 \<and> v_rc n \<noteq> None) (nodes_rc s) (head_rc s) as"
    and "distinct as"
    and "pc_rc (threads_rc s i) = pop_116" and "in_destructor (threads_rc s i)"
  shows "\<exists>s'. run_rc i s = Some s' \<and> p_rc (head_rc s') = None \<and>
     pc_rc (threads_rc s' i) = Idle_rc \<and>
     outcomes_rc (threads_rc s' i) = outcomes_rc (threads_rc s i) @ [Returned_void] \<and>
     freed (heap_rc s') = freed (heap_rc s) @ as \<and>
     capacity (heap_rc s') = capacity (heap_rc s) + length as \<and>
     nodes_rc s' = (\<lambda>a. if a \<in> set as then None else nodes_rc s a)"
  using assms
proof (induction as arbitrary: s)
  case Nil
  then show ?case
    by (simp add: run_rc_step run_rc_idle step_rc_def Let_def compare_exchange_def
        pop_return_rc_def)
next
  case (Cons a rest)
  from Cons.prems(1) obtain n where n: "p_rc (head_rc s) = Some a"
    "nodes_rc s a = Some n" "external_cnt (head_rc s) + inner_cnt n = 1" "v_rc n \<noteq> None"
    "linked_rc (\<lambda>a e n. e + inner_cnt n = 1 \<and> v_rc n \<noteq> None) (nodes_rc s) (next_rc n) rest"
    unfolding linked_rc_Cons by blast
  from Cons.prems(2) have na: "a \<notin> set rest" and dr: "distinct rest" by simp_all
  from destructor_turn [OF Cons.prems(3,4) n(1,2,4,3)] obtain s' where
    s': "run_rc i s = run_rc i s'" "pc_rc (threads_rc s' i) = pop_116"
      "in_destructor (threads_rc s' i)" "head_rc s' = next_rc n"
      "nodes_rc s' = (nodes_rc s)(a := None)" "heap_rc s' = operator_delete a (heap_rc s)"
      "outcomes_rc (threads_rc s' i) = outcomes_rc (threads_rc s i)"
    by blast
  have "linked_rc (\<lambda>a e n. e + inner_cnt n = 1 \<and> v_rc n \<noteq> None) (nodes_rc s') (head_rc s') rest"
    unfolding s'(4)
  proof (rule linked_rc_mono [OF n(5)])
    fix b e m assume "b \<in> set rest" "nodes_rc s b = Some m" "e + inner_cnt m = 1 \<and> v_rc m \<noteq> None"
    with na show "\<exists>n'. nodes_rc s' b = Some n' \<and> next_rc n' = next_rc m \<and>
        (e + inner_cnt n' = 1 \<and> v_rc n' \<noteq> None)"
      by (auto simp: s'(5))
  qed
  from Cons.IH [OF this dr s'(2,3)] obtain s'' where
    s'': "run_rc i s' = Some s''" "p_rc (head_rc s'') = None"
      "pc_rc (threads_rc s'' i) = Idle_rc"
      "outcomes_rc (threads_rc s'' i) = outcomes_rc (threads_rc s' i) @ [Returned_void]"
      "freed (heap_rc s'') = freed (heap_rc s') @ rest"
      "capacity (heap_rc s'') = capacity (heap_rc s') + length rest"
      "nodes_rc s'' = (\<lambda>b. if b \<in> set rest then None else nodes_rc s' b)"
    by blast
  have "nodes_rc s'' = (\<lambda>b. if b \<in> set (a # rest) then None else nodes_rc s b)"
    unfolding s''(7) s'(5) by (rule ext) simp
  with s'' s'(1,6,7) show ?case by (simp add: operator_delete_def)
qed

lemma destroy_rc:
  assumes "linked_rc (\<lambda>a e n. e + inner_cnt n = 1 \<and> v_rc n \<noteq> None) (nodes_rc s) (head_rc s) as"
    and "distinct as" and "pc_rc (threads_rc s i) = Idle_rc"
  shows "\<exists>s'. do_rc i Destroy s = Some s' \<and> p_rc (head_rc s') = None \<and>
     pc_rc (threads_rc s' i) = Idle_rc \<and>
     outcomes_rc (threads_rc s' i) = outcomes_rc (threads_rc s i) @ [Returned_void] \<and>
     freed (heap_rc s') = freed (heap_rc s) @ as \<and>
     capacity (heap_rc s') = capacity (heap_rc s) + length as \<and>
     nodes_rc s' = (\<lambda>a. if a \<in> set as then None else nodes_rc s a)"
proof -
  let ?s = "call_rc i Destroy s"
  have l: "linked_rc (\<lambda>a e n. e + inner_cnt n = 1 \<and> v_rc n \<noteq> None) (nodes_rc ?s) (head_rc ?s) as"
    "distinct as" "pc_rc (threads_rc ?s i) = pop_116" "in_destructor (threads_rc ?s i)"
    and e: "outcomes_rc (threads_rc ?s i) = outcomes_rc (threads_rc s i)"
    "heap_rc ?s = heap_rc s" "nodes_rc ?s = nodes_rc s"
    using assms by (simp_all add: call_rc_def)
  from destructor_loop [OF l] show ?thesis unfolding e do_rc_def .
qed

lemma stack_rc_linked:
  "stack_rc ns r xs \<Longrightarrow> linked_rc K ns r as \<Longrightarrow>
     as = map fst xs \<and> linked_rc (\<lambda>a e n. K a e n \<and> v_rc n \<noteq> None) ns r as"
proof (induction xs arbitrary: r as)
  case Nil
  then have "p_rc r = None" by simp
  from linked_rc_head_None [OF Nil.prems(2) this] this show ?case by simp
next
  case (Cons ax rest)
  from Cons.prems(1) obtain n where n: "p_rc r = Some (fst ax)" "ns (fst ax) = Some n"
    "v_rc n = Some (snd ax)" "stack_rc ns (next_rc n) rest"
    unfolding stack_rc_Cons by blast
  from linked_rc_head_Some [OF Cons.prems(2) n(1)] n(2) obtain tl where
    t: "as = fst ax # tl" "K (fst ax) (external_cnt r) n" "linked_rc K ns (next_rc n) tl"
    by auto
  from Cons.IH [OF n(4) t(3)] have ih: "tl = map fst rest"
    "linked_rc (\<lambda>a e n. K a e n \<and> v_rc n \<noteq> None) ns (next_rc n) tl" by blast+
  from n(3) have "v_rc n \<noteq> None" by simp
  with ih t n(1,2) show ?case by (simp add: linked_rc_Cons del: not_None_eq)
qed

lemma inv_rc_quiescent_counts:
  assumes inv: "inv_rc k s" and idle: "\<forall>i. pc_rc (threads_rc s i) = Idle_rc"
  shows "\<exists>as. distinct as \<and>
     linked_rc (\<lambda>a e n. e + inner_cnt n = 1) (nodes_rc s) (head_rc s) as \<and>
     (\<forall>a. nodes_rc s a \<noteq> None \<longrightarrow> a \<in> set as) \<and>
     set as \<inter> set (freed (heap_rc s)) = {} \<and> distinct (freed (heap_rc s))"
proof -
  from inv have sh: "rc_shape k (roles_rc s) (exts_rc s) (nodes_rc s) (head_rc s)"
    and hk: "heap_ok (nodes_rc s) (heap_rc s)" by (simp_all add: inv_rc_def rc_inv_def)
  from sh obtain as where as: "distinct as"
    "linked_rc (linked_ok k (roles_rc s)) (nodes_rc s) (head_rc s) as"
    "\<forall>a n. nodes_rc s a = Some n \<longrightarrow> a \<notin> set as \<longrightarrow> detached_ok k (roles_rc s) (exts_rc s) a n"
    unfolding rc_shape_def by blast
  from hk have e: "\<And>a. (nodes_rc s a = None) =
      (a \<in> set (freed (heap_rc s)) \<or> next_addr (heap_rc s) \<le> a)"
    and d: "distinct (freed (heap_rc s))"
    by (simp_all add: heap_ok_def)
  from idle have "\<And>i. roles_rc s i = NoRole" by (simp add: roles_rc_def role_rc_def)
  then have em: "holders (roles_rc s) a = {}" "winners (roles_rc s) a = {}" "owners (roles_rc s) a = {}" for a
    by (simp_all add: holders_def winners_def owners_def)
  have 1: "linked_rc (\<lambda>a e n. e + inner_cnt n = 1) (nodes_rc s) (head_rc s) as"
    by (rule linked_rc_mono [OF as(2)]) (simp add: linked_ok_def em)
  have 2: "a \<in> set as" if "nodes_rc s a \<noteq> None" for a
  proof (rule ccontr)
    assume "a \<notin> set as"
    from that obtain n where n: "nodes_rc s a = Some n" by auto
    with as(3) \<open>a \<notin> set as\<close> have "detached_ok k (roles_rc s) (exts_rc s) a n" by simp
    then show False by (simp add: detached_ok_def em)
  qed
  have 3: "set as \<inter> set (freed (heap_rc s)) = {}"
  proof (rule ccontr)
    assume "set as \<inter> set (freed (heap_rc s)) \<noteq> {}"
    then obtain a where a: "a \<in> set as" "a \<in> set (freed (heap_rc s))" by blast
    from linked_rc_member [OF as(2) a(1)] obtain n where "nodes_rc s a = Some n" by blast
    with e [of a] a(2) show False by simp
  qed
  from as(1) 1 2 3 d show ?thesis by blast
qed

lemma exec_rc_append: "exec_rc (es @ fs) s = exec_rc fs (exec_rc es s)"
  by (simp add: exec_rc_def)

lemma exec_rc_Cons: "exec_rc (e # es) s = exec_rc es (event_rc e s)"
  by (simp add: exec_rc_def)

lemma exec_rc_Nil: "exec_rc [] s = s"
  by (simp add: exec_rc_def)

lemma w_of_nat_not_minus_1:
  assumes "m < 4294967295"
  shows "(of_nat m :: 32 word) \<noteq> - 1"
proof
  assume "(of_nat m :: 32 word) = - 1"
  then have "(of_nat (Suc m) :: 32 word) = 0" by simp
  moreover from assms have "Suc m < 4294967296" by simp
  ultimately have "Suc m = 0" using w_of_nat_0 [of "Suc m"] by blast
  then show False by simp
qed

lemma w_of_nat_minus_1: "(of_nat 4294967295 :: 32 word) = - 1"
proof -
  have "(of_nat 4294967296 :: 32 word) = 0" by simp
  then have "(of_nat (Suc 4294967295) :: 32 word) = 0" by simp
  then have "(of_nat 4294967295 :: 32 word) + 1 = 0" by (simp only: of_nat_Suc add.commute)
  then show ?thesis by (simp only: eq_neg_iff_add_eq_0)
qed

lemma contended_turn:
  assumes c: "contended_rc x y m s" and xy: "x \<noteq> y"
  shows "\<exists>n s'. exec_rc [Step y, Step x] s = s' \<and>
     head_rc s' = \<lparr>external_cnt = 2 + of_nat (Suc m), p_rc = Some 0\<rparr> \<and>
     nodes_rc s' = nodes_rc s \<and> nodes_rc s 0 = Some n \<and> inner_cnt n = - of_nat m \<and>
     heap_rc s' = heap_rc s \<and> freed (heap_rc s) = [] \<and>
     pc_rc (threads_rc s' y) = pop_119 \<and> t_rc (threads_rc s' y) = head_rc s' \<and>
     pc_rc (threads_rc s' x) = pop_136 \<and> t_rc (threads_rc s' x) = head_rc s' \<and>
     p_local_rc (threads_rc s' x) = Some 0"
proof -
  from c obtain n where n: "nodes_rc s 0 = Some n" "inner_cnt n = - of_nat m"
    by (auto simp: contended_rc_def split: option.splits)
  from c have h: "head_rc s = \<lparr>external_cnt = 2 + of_nat m, p_rc = Some 0\<rparr>"
    and px: "pc_rc (threads_rc s x) = pop_119" and tx: "t_rc (threads_rc s x) = head_rc s"
    and py: "pc_rc (threads_rc s y) = pop_118" and ty: "t_rc (threads_rc s y) = head_rc s"
    and f: "freed (heap_rc s) = []"
    by (simp_all add: contended_rc_def)
  define s1 where "s1 = step_rc y s"
  have s1: "head_rc s1 = \<lparr>external_cnt = 2 + of_nat (Suc m), p_rc = Some 0\<rparr>"
    "nodes_rc s1 = nodes_rc s" "heap_rc s1 = heap_rc s"
    "pc_rc (threads_rc s1 y) = pop_119" "t_rc (threads_rc s1 y) = head_rc s1"
    "pc_rc (threads_rc s1 x) = pop_119" "t_rc (threads_rc s1 x) = head_rc s"
    using px tx py ty h xy by (simp_all add: s1_def step_rc_def Let_def compare_exchange_def)
  define s2 where "s2 = step_rc x s1"
  have ne: "head_rc s1 \<noteq> head_rc s" by (simp add: s1(1) h)
  have s2: "head_rc s2 = head_rc s1" "nodes_rc s2 = nodes_rc s" "heap_rc s2 = heap_rc s"
    "pc_rc (threads_rc s2 y) = pop_119" "t_rc (threads_rc s2 y) = head_rc s1"
    "pc_rc (threads_rc s2 x) = pop_136" "t_rc (threads_rc s2 x) = head_rc s1"
    "p_local_rc (threads_rc s2 x) = Some 0"
    using s1(2-7) ne n(1) h xy
    by (simp_all add: s2_def step_rc_def Let_def compare_exchange_def)
  have "exec_rc [Step y, Step x] s = s2" by (simp add: exec_rc_def s2_def s1_def)
  with s1(1) s2 n f show ?thesis by simp
qed

lemma contended_round:
  assumes c: "contended_rc x y m s" and xy: "x \<noteq> y" and m: "(of_nat m :: 32 word) \<noteq> - 1"
  shows "contended_rc y x (Suc m) (exec_rc [Step y, Step x, Step x] s)"
proof -
  from contended_turn [OF c xy] obtain n s' where
    s': "exec_rc [Step y, Step x] s = s'"
     "head_rc s' = \<lparr>external_cnt = 2 + of_nat (Suc m), p_rc = Some 0\<rparr>"
     "nodes_rc s' = nodes_rc s" "nodes_rc s 0 = Some n" "inner_cnt n = - of_nat m"
     "heap_rc s' = heap_rc s" "freed (heap_rc s) = []"
     "pc_rc (threads_rc s' y) = pop_119" "t_rc (threads_rc s' y) = head_rc s'"
     "pc_rc (threads_rc s' x) = pop_136" "t_rc (threads_rc s' x) = head_rc s'"
     "p_local_rc (threads_rc s' x) = Some 0"
    by blast
  have e: "exec_rc [Step y, Step x, Step x] s = step_rc x s'"
    using s'(1) by (simp add: exec_rc_def)
  have n1: "inner_cnt n \<noteq> 1"
  proof
    assume "inner_cnt n = 1"
    with s'(5) have "- (of_nat m :: 32 word) = 1" by simp
    then have "(of_nat m :: 32 word) = - 1"
      using minus_equation_iff [of "of_nat m :: 32 word" 1] by auto
    with m show False by simp
  qed
  have "contended_rc y x (Suc m) (step_rc x s')"
    using s'(2-12) n1 xy
    by (simp add: contended_rc_def step_rc_def pop_lost_def Let_def)
  with e show ?thesis by simp
qed

lemma contended_rounds:
  "contended_rc 1 2 m s \<Longrightarrow> m + 2 * n \<le> 4294967295 \<Longrightarrow>
     contended_rc 1 2 (m + 2 * n)
       (exec_rc (concat (replicate n [Step 2, Step 1, Step 1, Step 1, Step 2, Step 2])) s)"
proof (induction n arbitrary: m s)
  case 0
  then show ?case by (simp add: exec_rc_def)
next
  case (Suc n)
  from Suc.prems(2) have m1: "m < 4294967295" and m2: "Suc m < 4294967295" by simp_all
  have 1: "contended_rc 2 1 (Suc m) (exec_rc [Step 2, Step 1, Step 1] s)"
    by (rule contended_round [OF Suc.prems(1) _ w_of_nat_not_minus_1 [OF m1]]) simp
  have 2: "contended_rc 1 2 (Suc (Suc m))
      (exec_rc [Step 1, Step 2, Step 2] (exec_rc [Step 2, Step 1, Step 1] s))"
    by (rule contended_round [OF 1 _ w_of_nat_not_minus_1 [OF m2]]) simp
  have e: "exec_rc [Step 1, Step 2, Step 2] (exec_rc [Step 2, Step 1, Step 1] s) =
      exec_rc [Step 2, Step 1, Step 1, Step 1, Step 2, Step 2] s"
    by (simp add: exec_rc_def)
  from Suc.prems(2) have "Suc (Suc m) + 2 * n \<le> 4294967295" by simp
  from Suc.IH [OF 2 [unfolded e] this] show ?case
    by (simp add: exec_rc_def)
qed

lemma contended_wrap:
  assumes c: "contended_rc x y m s" and xy: "x \<noteq> y" and m: "(of_nat m :: 32 word) = - 1"
  shows "nodes_rc (exec_rc [Step y, Step x, Step x, Step y] s) 0 = None \<and>
     p_rc (head_rc (exec_rc [Step y, Step x, Step x, Step y] s)) = Some 0 \<and>
     freed (heap_rc (exec_rc [Step y, Step x, Step x, Step y] s)) = [0] \<and>
     pc_rc (threads_rc (exec_rc [Step y, Step x, Step x, Step y] s) y) = UB_rc"
proof -
  from contended_turn [OF c xy] obtain n s' where
    s': "exec_rc [Step y, Step x] s = s'"
     "head_rc s' = \<lparr>external_cnt = 2 + of_nat (Suc m), p_rc = Some 0\<rparr>"
     "nodes_rc s' = nodes_rc s" "nodes_rc s 0 = Some n" "inner_cnt n = - of_nat m"
     "heap_rc s' = heap_rc s" "freed (heap_rc s) = []"
     "pc_rc (threads_rc s' y) = pop_119" "t_rc (threads_rc s' y) = head_rc s'"
     "pc_rc (threads_rc s' x) = pop_136" "t_rc (threads_rc s' x) = head_rc s'"
     "p_local_rc (threads_rc s' x) = Some 0"
    by blast
  from m s'(5) have n1: "inner_cnt n = 1" by simp
  define s3 where "s3 = step_rc x s'"
  have s3: "nodes_rc s3 0 = None" "head_rc s3 = head_rc s'" "freed (heap_rc s3) = [0]"
    "pc_rc (threads_rc s3 y) = pop_119" "t_rc (threads_rc s3 y) = head_rc s'"
    using s'(2-12) n1 xy
    by (simp_all add: s3_def step_rc_def pop_lost_def Let_def operator_delete_def)
  define s4 where "s4 = step_rc y s3"
  have s4: "nodes_rc s4 0 = None" "p_rc (head_rc s4) = Some 0" "freed (heap_rc s4) = [0]"
    "pc_rc (threads_rc s4 y) = UB_rc"
    using s3 s'(2) by (simp_all add: s4_def step_rc_def Let_def)
  have "exec_rc [Step y, Step x, Step x, Step y] s = s4"
    using s'(1) by (simp add: exec_rc_def s4_def s3_def)
  with s4 show ?thesis by simp
qed

lemma destroy_hp:
  assumes "pc_hp (threads_hp s i) = Idle_hp"
  shows "do_hp i Destroy s = Some (leave_hp i Returned_void s)"
  using assms by (simp add: do_hp_def call_hp_def run_hp_idle)

lemma HazardPointers_init_free:
  "\<not> list_all (\<lambda>x. id_hp x \<noteq> None) HazardPointers_init"
  by (simp add: HazardPointers_init_def MaxSize_def list_all_iff)

subsection \<open>The claims\<close>

text \<open>
  C1. Thread 0 pushes 1, 2, 3, each call running to completion, on the empty stack;
  thread 1 then pops three times. The three calls of \<^verbatim>\<open>pop\<close> return 3, 2, 1 in this
  order, in the hazard-pointer stack and in the split-reference-count stack.
\<close>

theorem lifo_1_2_3:
  "map_option (\<lambda>s. outcomes_hp (threads_hp s 1))
     (seq_hp [(0, Push (1::int)), (0, Push 2), (0, Push 3), (1, Pop), (1, Pop), (1, Pop)]
        (init_hp 3))
     = Some [Returned (Some 3), Returned (Some 2), Returned (Some 1)] \<and>
   map_option (\<lambda>s. outcomes_rc (threads_rc s 1))
     (seq_rc [(0, Push (1::int)), (0, Push 2), (0, Push 3), (1, Pop), (1, Pop), (1, Pop)]
        (init_rc 3))
     = Some [Returned (Some 3), Returned (Some 2), Returned (Some 1)]"
  by code_simp

text \<open>
  C4. In every state that the threads can reach by any interleaving: line 80 stores \<open>t\<close>
  into the slot of the calling thread and remembers it in \<open>t2\<close>; line 81 reads
  \<^verbatim>\<open>head_\<close> again and leaves the inner loop exactly when the value read equals \<open>t2\<close>;
  and whenever a thread stands at the exchange of line 83, its slot holds the very
  pointer \<open>t\<close> that the exchange compares \<^verbatim>\<open>head_\<close> with and replaces by \<^verbatim>\<open>t->next\<close>.
\<close>

theorem protection_loop:
  assumes "s = exec_hp es (init_hp cells)" and "th = threads_hp s i" and "s' = step_hp i s"
  shows
    "(pc_hp th = pop_80 \<longrightarrow>
        (\<exists>k. hazard_pointer th = Some k \<and> p_hp (HazardPointers s' ! k) = t_hp th) \<and>
        t2_hp (threads_hp s' i) = t_hp th \<and> pc_hp (threads_hp s' i) = pop_81) \<and>
     (pc_hp th = pop_81 \<longrightarrow>
        t_hp (threads_hp s' i) = head_hp s \<and>
        pc_hp (threads_hp s' i) = (if head_hp s = t2_hp th then pop_83 else pop_80)) \<and>
     (pc_hp th = pop_83 \<longrightarrow>
        (\<exists>k. hazard_pointer th = Some k \<and> p_hp (HazardPointers s ! k) = t_hp th) \<and>
        (\<forall>a n. t_hp th = Some a \<and> nodes_hp s a = Some n \<longrightarrow>
           head_hp s' = (if head_hp s = Some a then next_hp n else head_hp s)))"
proof -
  have inv: "inv_hp s" unfolding assms by (rule reachable_inv_hp)
  then have ok: "slot_ok (HazardPointers s) i th" by (simp add: inv_hp_def assms)
  have 1: "(\<exists>k. hazard_pointer th = Some k \<and> p_hp (HazardPointers s' ! k) = t_hp th) \<and>
        t2_hp (threads_hp s' i) = t_hp th \<and> pc_hp (threads_hp s' i) = pop_81"
    if "pc_hp th = pop_80"
    using that ok unfolding assms
    by (auto simp: step_hp_def slot_ok_def store_p_def Let_def split: option.splits)
  have 2: "t_hp (threads_hp s' i) = head_hp s \<and>
        pc_hp (threads_hp s' i) = (if head_hp s = t2_hp th then pop_83 else pop_80)"
    if "pc_hp th = pop_81"
    using that unfolding assms by (simp add: step_hp_def Let_def)
  have 3: "\<exists>k. hazard_pointer th = Some k \<and> p_hp (HazardPointers s ! k) = t_hp th"
    if "pc_hp th = pop_83"
    using that ok by (auto simp: slot_ok_def split: option.splits)
  have 4: "head_hp s' = (if head_hp s = Some a then next_hp n else head_hp s)"
    if "pc_hp th = pop_83" "t_hp th = Some a" "nodes_hp s a = Some n" for a n
    using that unfolding assms by (simp add: step_hp_def compare_exchange_def Let_def)
  from 1 2 3 4 show ?thesis by blast
qed

theorem protection_loop_witness:
  "(\<exists>k. hazard_pointer (threads_hp (exec_hp [Call 0 (Push (1::int)), Step 0, Step 0, Step 0,
        Call 1 Pop, Step 1, Step 1] (init_hp 1)) 1) = Some k \<and>
      p_hp (HazardPointers (step_hp 1 (exec_hp [Call 0 (Push (1::int)), Step 0, Step 0, Step 0,
        Call 1 Pop, Step 1, Step 1] (init_hp 1))) ! k) = Some 0) \<and>
   pc_hp (threads_hp (step_hp 1 (exec_hp [Call 0 (Push (1::int)), Step 0, Step 0, Step 0,
        Call 1 Pop, Step 1, Step 1, Step 1] (init_hp 1))) 1) = pop_83 \<and>
   (\<exists>k. hazard_pointer (threads_hp (exec_hp [Call 0 (Push (1::int)), Step 0, Step 0, Step 0,
        Call 1 Pop, Step 1, Step 1, Step 1, Step 1] (init_hp 1)) 1) = Some k \<and>
      p_hp (HazardPointers (exec_hp [Call 0 (Push (1::int)), Step 0, Step 0, Step 0,
        Call 1 Pop, Step 1, Step 1, Step 1, Step 1] (init_hp 1)) ! k) = Some 0) \<and>
   head_hp (step_hp 1 (exec_hp [Call 0 (Push (1::int)), Step 0, Step 0, Step 0,
        Call 1 Pop, Step 1, Step 1, Step 1, Step 1] (init_hp 1))) = None"
proof -
  let ?e80 = "[Call 0 (Push (1::int)), Step 0, Step 0, Step 0, Call 1 Pop, Step 1, Step 1]"
  let ?e81 = "[Call 0 (Push (1::int)), Step 0, Step 0, Step 0, Call 1 Pop, Step 1, Step 1, Step 1]"
  let ?e83 = "[Call 0 (Push (1::int)), Step 0, Step 0, Step 0, Call 1 Pop, Step 1, Step 1, Step 1, Step 1]"
  have a: "pc_hp (threads_hp (exec_hp ?e80 (init_hp 1)) 1) = pop_80"
    "t_hp (threads_hp (exec_hp ?e80 (init_hp 1)) 1) = Some 0"
    by code_simp+
  have b: "pc_hp (threads_hp (exec_hp ?e81 (init_hp 1)) 1) = pop_81"
    "head_hp (exec_hp ?e81 (init_hp 1)) = t2_hp (threads_hp (exec_hp ?e81 (init_hp 1)) 1)"
    by code_simp+
  have c: "pc_hp (threads_hp (exec_hp ?e83 (init_hp 1)) 1) = pop_83"
    "t_hp (threads_hp (exec_hp ?e83 (init_hp 1)) 1) = Some 0"
    "nodes_hp (exec_hp ?e83 (init_hp 1)) 0 = Some \<lparr>v_hp = Some 1, next_hp = None\<rparr>"
    "head_hp (exec_hp ?e83 (init_hp 1)) = Some 0"
    by code_simp+
  from protection_loop [OF refl refl refl, of ?e80 1 1] a
  have 1: "\<exists>k. hazard_pointer (threads_hp (exec_hp ?e80 (init_hp 1)) 1) = Some k \<and>
      p_hp (HazardPointers (step_hp 1 (exec_hp ?e80 (init_hp 1))) ! k) = Some 0"
    by simp
  from protection_loop [OF refl refl refl, of ?e81 1 1] b
  have 2: "pc_hp (threads_hp (step_hp 1 (exec_hp ?e81 (init_hp 1))) 1) = pop_83"
    by simp
  from protection_loop [OF refl refl refl, of ?e83 1 1] c
  have 3: "(\<exists>k. hazard_pointer (threads_hp (exec_hp ?e83 (init_hp 1)) 1) = Some k \<and>
      p_hp (HazardPointers (exec_hp ?e83 (init_hp 1)) ! k) = Some 0) \<and>
     head_hp (step_hp 1 (exec_hp ?e83 (init_hp 1))) = None"
    by simp
  from 1 2 3 show ?thesis by blast
qed

text \<open>
  C9. The array of hazard pointers has \<open>MaxSize = 100\<close> slots in every reachable state,
  whatever the threads do and whatever the size of the free store; at any time at most
  100 threads hold a slot.
\<close>

theorem registry_has_100_slots:
  "MaxSize = 100 \<and>
   length (HazardPointers (exec_hp es (init_hp cells))) = MaxSize \<and>
   finite {i. hazard_pointer (threads_hp (exec_hp es (init_hp cells)) i) \<noteq> None} \<and>
   card {i. hazard_pointer (threads_hp (exec_hp es (init_hp cells)) i) \<noteq> None} \<le> MaxSize"
proof -
  have inv: "inv_hp (exec_hp es (init_hp cells))" by (rule reachable_inv_hp)
  then have len: "length (HazardPointers (exec_hp es (init_hp cells))) = MaxSize"
    by (simp add: inv_hp_def)
  from holders_bounded [OF inv] len show ?thesis by (simp add: MaxSize_def)
qed

text \<open>
  C10. In every reachable state: when a thread stands at line 84, after the loops of
  lines 76--83, its slot still holds the pointer \<open>t\<close> that the loops protected; the step
  of line 84 stores \<^verbatim>\<open>nullptr\<close> into the slot, and then \<^verbatim>\<open>pop\<close> returns the null pointer (if
  \<open>t\<close> is null) or goes on to line 87. The slot holds \<^verbatim>\<open>nullptr\<close> at lines 87 and 93 and
  when the thread is outside any call: no protection of a \<^verbatim>\<open>pop\<close> outlives the call,
  whether it returned a value or the null pointer.
\<close>

theorem no_protection_after_return:
  assumes "s = exec_hp es (init_hp cells)" and "hazard_pointer (threads_hp s i) = Some k"
  shows
    "(pc_hp (threads_hp s i) = pop_84 \<longrightarrow>
        p_hp (HazardPointers s ! k) = t_hp (threads_hp s i) \<and>
        p_hp (HazardPointers (step_hp i s) ! k) = None \<and>
        pc_hp (threads_hp (step_hp i s) i) =
          (if t_hp (threads_hp s i) = None then Idle_hp else pop_87) \<and>
        (t_hp (threads_hp s i) = None \<longrightarrow>
           outcomes_hp (threads_hp (step_hp i s) i) =
             outcomes_hp (threads_hp s i) @ [Returned None])) \<and>
     (pc_hp (threads_hp s i) = pop_87 \<longrightarrow> p_hp (HazardPointers s ! k) = None) \<and>
     (pc_hp (threads_hp s i) = pop_93 \<longrightarrow> p_hp (HazardPointers s ! k) = None) \<and>
     (pc_hp (threads_hp s i) = Idle_hp \<longrightarrow> p_hp (HazardPointers s ! k) = None)"
proof -
  have inv: "inv_hp s" unfolding assms by (rule reachable_inv_hp)
  then have ok: "slot_ok (HazardPointers s) i (threads_hp s i)" by (simp add: inv_hp_def)
  have 1: "p_hp (HazardPointers s ! k) = t_hp (threads_hp s i)"
    if "pc_hp (threads_hp s i) = pop_84"
    using that ok assms(2) by (simp add: slot_ok_def)
  have 2: "p_hp (HazardPointers (step_hp i s) ! k) = None"
    if "pc_hp (threads_hp s i) = pop_84"
    using that ok assms(2)
    by (auto simp: step_hp_def slot_ok_def store_p_def Let_def split: option.splits)
  have 3: "pc_hp (threads_hp (step_hp i s) i) =
      (if t_hp (threads_hp s i) = None then Idle_hp else pop_87)"
    if "pc_hp (threads_hp s i) = pop_84"
    using that assms(2) by (auto simp: step_hp_def Let_def split: option.splits)
  have 4: "outcomes_hp (threads_hp (step_hp i s) i) =
      outcomes_hp (threads_hp s i) @ [Returned None]"
    if "pc_hp (threads_hp s i) = pop_84" "t_hp (threads_hp s i) = None"
    using that assms(2) by (simp add: step_hp_def Let_def)
  from ok assms(2) have 5:
    "\<not> protecting (pc_hp (threads_hp s i)) \<longrightarrow> p_hp (HazardPointers s ! k) = None"
    by (simp add: slot_ok_def)
  from 1 2 3 4 5 show ?thesis by auto
qed

theorem no_protection_after_return_witness:
  "pc_hp (threads_hp (exec_hp [Call 0 (Push (1::int)), Step 0, Step 0, Step 0,
       Call 1 Pop, Step 1, Step 1, Step 1, Step 1, Step 1] (init_hp 1)) 1) = pop_84 \<and>
   t_hp (threads_hp (exec_hp [Call 0 (Push (1::int)), Step 0, Step 0, Step 0,
       Call 1 Pop, Step 1, Step 1, Step 1, Step 1, Step 1] (init_hp 1)) 1) = Some 0 \<and>
   p_hp (HazardPointers (exec_hp [Call 0 (Push (1::int)), Step 0, Step 0, Step 0,
       Call 1 Pop, Step 1, Step 1, Step 1, Step 1, Step 1] (init_hp 1)) ! 0) = Some 0 \<and>
   p_hp (HazardPointers (step_hp 1 (exec_hp [Call 0 (Push (1::int)), Step 0, Step 0, Step 0,
       Call 1 Pop, Step 1, Step 1, Step 1, Step 1, Step 1] (init_hp 1))) ! 0) = None \<and>
   pc_hp (threads_hp (step_hp 1 (exec_hp [Call 0 (Push (1::int)), Step 0, Step 0, Step 0,
       Call 1 Pop, Step 1, Step 1, Step 1, Step 1, Step 1] (init_hp 1))) 1) = pop_87 \<and>
   pc_hp (threads_hp (exec_hp [Call 0 (Push (1::int)), Step 0, Step 0, Step 0,
       Call 1 Pop, Step 1, Step 1, Step 1, Step 1, Step 1, Step 1, Step 1, Step 1,
       Call 1 Pop, Step 1, Step 1, Step 1, Step 1, Step 1] (init_hp 1)) 1) = pop_84 \<and>
   outcomes_hp (threads_hp (step_hp 1 (exec_hp [Call 0 (Push (1::int)), Step 0, Step 0,
       Step 0, Call 1 Pop, Step 1, Step 1, Step 1, Step 1, Step 1, Step 1, Step 1, Step 1,
       Call 1 Pop, Step 1, Step 1, Step 1, Step 1, Step 1] (init_hp 1))) 1)
     = [Returned (Some 1), Returned None] \<and>
   p_hp (HazardPointers (step_hp 1 (exec_hp [Call 0 (Push (1::int)), Step 0, Step 0,
       Step 0, Call 1 Pop, Step 1, Step 1, Step 1, Step 1, Step 1, Step 1, Step 1, Step 1,
       Call 1 Pop, Step 1, Step 1, Step 1, Step 1, Step 1] (init_hp 1))) ! 0) = None \<and>
   pc_hp (threads_hp (exec_hp [Call 0 (Push (1::int)), Step 0, Step 0, Step 0,
       Call 1 Pop, Step 1, Step 1, Step 1, Step 1, Step 1, Step 1, Step 1, Step 1,
       Call 1 Pop, Step 1, Step 1, Step 1, Step 1, Step 1, Step 1] (init_hp 1)) 1)
     = Idle_hp \<and>
   p_hp (HazardPointers (exec_hp [Call 0 (Push (1::int)), Step 0, Step 0, Step 0,
       Call 1 Pop, Step 1, Step 1, Step 1, Step 1, Step 1, Step 1, Step 1, Step 1,
       Call 1 Pop, Step 1, Step 1, Step 1, Step 1, Step 1, Step 1] (init_hp 1)) ! 0) = None"
proof -
  let ?e1 = "[Call 0 (Push (1::int)), Step 0, Step 0, Step 0,
       Call 1 Pop, Step 1, Step 1, Step 1, Step 1, Step 1]"
  let ?e2 = "[Call 0 (Push (1::int)), Step 0, Step 0, Step 0,
       Call 1 Pop, Step 1, Step 1, Step 1, Step 1, Step 1, Step 1, Step 1, Step 1,
       Call 1 Pop, Step 1, Step 1, Step 1, Step 1, Step 1]"
  let ?e3 = "[Call 0 (Push (1::int)), Step 0, Step 0, Step 0,
       Call 1 Pop, Step 1, Step 1, Step 1, Step 1, Step 1, Step 1, Step 1, Step 1,
       Call 1 Pop, Step 1, Step 1, Step 1, Step 1, Step 1, Step 1]"
  have a: "pc_hp (threads_hp (exec_hp ?e1 (init_hp 1)) 1) = pop_84"
    "hazard_pointer (threads_hp (exec_hp ?e1 (init_hp 1)) 1) = Some 0"
    "t_hp (threads_hp (exec_hp ?e1 (init_hp 1)) 1) = Some 0"
    by code_simp+
  have b: "pc_hp (threads_hp (exec_hp ?e2 (init_hp 1)) 1) = pop_84"
    "hazard_pointer (threads_hp (exec_hp ?e2 (init_hp 1)) 1) = Some 0"
    "t_hp (threads_hp (exec_hp ?e2 (init_hp 1)) 1) = None"
    "outcomes_hp (threads_hp (exec_hp ?e2 (init_hp 1)) 1) = [Returned (Some 1)]"
    by code_simp+
  have c: "pc_hp (threads_hp (exec_hp ?e3 (init_hp 1)) 1) = Idle_hp"
    "hazard_pointer (threads_hp (exec_hp ?e3 (init_hp 1)) 1) = Some 0"
    by code_simp+
  from no_protection_after_return [OF refl a(2)] a(1,3)
  have 1: "p_hp (HazardPointers (exec_hp ?e1 (init_hp 1)) ! 0) = Some 0 \<and>
      p_hp (HazardPointers (step_hp 1 (exec_hp ?e1 (init_hp 1))) ! 0) = None \<and>
      pc_hp (threads_hp (step_hp 1 (exec_hp ?e1 (init_hp 1))) 1) = pop_87"
    by simp
  from no_protection_after_return [OF refl b(2)] b(1,3,4)
  have 2: "outcomes_hp (threads_hp (step_hp 1 (exec_hp ?e2 (init_hp 1))) 1)
      = [Returned (Some 1), Returned None] \<and>
      p_hp (HazardPointers (step_hp 1 (exec_hp ?e2 (init_hp 1))) ! 0) = None"
    by simp
  from no_protection_after_return [OF refl c(2)] c(1)
  have 3: "p_hp (HazardPointers (exec_hp ?e3 (init_hp 1)) ! 0) = None"
    by simp
  from 1 2 3 a(1,3) b(1) c(1) show ?thesis by blast
qed

text \<open>
  C3 (the code departs from the claim). Thread 1 starts \<^verbatim>\<open>pop\<close> on the stack holding 2
  above 1 and is suspended at line 83, its slot protecting the head node (address 1).
  Thread 0 pops twice. Its first \<^verbatim>\<open>pop\<close> finds node 1 protected and defers it (line 89);
  \<^verbatim>\<open>try_delete\<close> finds it still protected and wraps the entry in a new entry (line 132).
  In its second \<^verbatim>\<open>pop\<close>, \<^verbatim>\<open>try_delete\<close> looks up the \<^verbatim>\<open>data\<close> of the wrapper, which is the
  address of the wrapped entry and is in no slot, and deletes it: node 1 is freed while
  the slot of thread 1 still holds its address, and the next step of thread 1 reads the
  freed node.
\<close>

theorem redeferred_node_freed_while_protected:
  "pc_hp (threads_hp (exec_hp
      [Call 0 (Push (1::int)), Step 0, Step 0, Step 0, Call 0 (Push 2), Step 0, Step 0, Step 0,
       Call 1 Pop, Step 1, Step 1, Step 1, Step 1,
       Call 0 Pop, Step 0, Step 0, Step 0, Step 0, Step 0, Step 0, Step 0, Step 0,
       Call 0 Pop, Step 0, Step 0, Step 0, Step 0, Step 0, Step 0, Step 0, Step 0]
      (init_hp 4)) 1) = pop_83 \<and>
   t_hp (threads_hp (exec_hp
      [Call 0 (Push (1::int)), Step 0, Step 0, Step 0, Call 0 (Push 2), Step 0, Step 0, Step 0,
       Call 1 Pop, Step 1, Step 1, Step 1, Step 1,
       Call 0 Pop, Step 0, Step 0, Step 0, Step 0, Step 0, Step 0, Step 0, Step 0,
       Call 0 Pop, Step 0, Step 0, Step 0, Step 0, Step 0, Step 0, Step 0, Step 0]
      (init_hp 4)) 1) = Some 1 \<and>
   HazardPointers (exec_hp
      [Call 0 (Push (1::int)), Step 0, Step 0, Step 0, Call 0 (Push 2), Step 0, Step 0, Step 0,
       Call 1 Pop, Step 1, Step 1, Step 1, Step 1,
       Call 0 Pop, Step 0, Step 0, Step 0, Step 0, Step 0, Step 0, Step 0, Step 0,
       Call 0 Pop, Step 0, Step 0, Step 0, Step 0, Step 0, Step 0, Step 0, Step 0]
      (init_hp 4)) ! 0 = \<lparr>id_hp = Some 1, p_hp = Some 1\<rparr> \<and>
   nodes_hp (exec_hp
      [Call 0 (Push (1::int)), Step 0, Step 0, Step 0, Call 0 (Push 2), Step 0, Step 0, Step 0,
       Call 1 Pop, Step 1, Step 1, Step 1, Step 1,
       Call 0 Pop, Step 0, Step 0, Step 0, Step 0, Step 0, Step 0, Step 0, Step 0,
       Call 0 Pop, Step 0, Step 0, Step 0, Step 0, Step 0, Step 0, Step 0, Step 0]
      (init_hp 4)) 1 = None \<and>
   freed (heap_hp (exec_hp
      [Call 0 (Push (1::int)), Step 0, Step 0, Step 0, Call 0 (Push 2), Step 0, Step 0, Step 0,
       Call 1 Pop, Step 1, Step 1, Step 1, Step 1,
       Call 0 Pop, Step 0, Step 0, Step 0, Step 0, Step 0, Step 0, Step 0, Step 0,
       Call 0 Pop, Step 0, Step 0, Step 0, Step 0, Step 0, Step 0, Step 0, Step 0]
      (init_hp 4))) = [0, 1, 2, 3] \<and>
   outcomes_hp (threads_hp (exec_hp
      [Call 0 (Push (1::int)), Step 0, Step 0, Step 0, Call 0 (Push 2), Step 0, Step 0, Step 0,
       Call 1 Pop, Step 1, Step 1, Step 1, Step 1,
       Call 0 Pop, Step 0, Step 0, Step 0, Step 0, Step 0, Step 0, Step 0, Step 0,
       Call 0 Pop, Step 0, Step 0, Step 0, Step 0, Step 0, Step 0, Step 0, Step 0]
      (init_hp 4)) 0) = [Returned_void, Returned_void, Returned (Some 2), Returned (Some 1)] \<and>
   pc_hp (threads_hp (exec_hp
      [Call 0 (Push (1::int)), Step 0, Step 0, Step 0, Call 0 (Push 2), Step 0, Step 0, Step 0,
       Call 1 Pop, Step 1, Step 1, Step 1, Step 1,
       Call 0 Pop, Step 0, Step 0, Step 0, Step 0, Step 0, Step 0, Step 0, Step 0,
       Call 0 Pop, Step 0, Step 0, Step 0, Step 0, Step 0, Step 0, Step 0, Step 0,
       Step 1]
      (init_hp 4)) 1) = UB_hp"
  by code_simp

text \<open>
  C5 (as the code has it). On a stack whose head is null, any number of successive calls
  of \<^verbatim>\<open>pop\<close> by a thread return the null pointer every time and throw nothing. In the
  hazard-pointer stack this needs that the thread holds a slot or that a slot is free;
  head, nodes, the list of deferred deletions and the free store stay as they are. In the
  split-reference-count stack the pointer of head stays null and each call adds one to
  the external count of head.
\<close>

theorem pop_on_empty:
  assumes "head_hp s = None" and "pc_hp (threads_hp s i) = Idle_hp"
    and "hazard_pointer (threads_hp s i) \<noteq> None \<or>
         \<not> list_all (\<lambda>x. id_hp x \<noteq> None) (HazardPointers s)"
    and "p_rc (head_rc r) = None" and "pc_rc (threads_rc r i) = Idle_rc"
  shows
    "(\<exists>s'. seq_hp (replicate n (i, Pop)) s = Some s' \<and>
        outcomes_hp (threads_hp s' i) =
          outcomes_hp (threads_hp s i) @ replicate n (Returned None) \<and>
        head_hp s' = None \<and> nodes_hp s' = nodes_hp s \<and>
        to_delete_list s' = to_delete_list s \<and> heap_hp s' = heap_hp s) \<and>
     (\<exists>r'. seq_rc (replicate n (i, Pop)) r = Some r' \<and>
        outcomes_rc (threads_rc r' i) =
          outcomes_rc (threads_rc r i) @ replicate n (Returned None) \<and>
        head_rc r' = \<lparr>external_cnt = external_cnt (head_rc r) + of_nat n, p_rc = None\<rparr> \<and>
        nodes_rc r' = nodes_rc r \<and> heap_rc r' = heap_rc r)"
  using pops_empty_hp [OF assms(1,2,3), of n] pops_empty_rc [OF assms(4,5), of n] by blast

theorem pop_on_empty_witness:
  "(\<exists>s'. seq_hp (replicate 2 (0, Pop)) (init_hp 0 :: int state_hp) = Some s' \<and>
      outcomes_hp (threads_hp s' 0) = [Returned None, Returned None] \<and> head_hp s' = None) \<and>
   (\<exists>r'. seq_rc (replicate 2 (0, Pop)) (init_rc 0 :: int state_rc) = Some r' \<and>
      outcomes_rc (threads_rc r' 0) = [Returned None, Returned None] \<and>
      head_rc r' = \<lparr>external_cnt = 2, p_rc = None\<rparr>)"
proof -
  have a: "head_hp (init_hp 0 :: int state_hp) = None"
    "pc_hp (threads_hp (init_hp 0 :: int state_hp) 0) = Idle_hp"
    "outcomes_hp (threads_hp (init_hp 0 :: int state_hp) 0) = []"
    "hazard_pointer (threads_hp (init_hp 0 :: int state_hp) 0) \<noteq> None \<or>
       \<not> list_all (\<lambda>x. id_hp x \<noteq> None) (HazardPointers (init_hp 0 :: int state_hp))"
    by (simp_all add: init_hp_def thread_init_hp_def HazardPointers_init_free del: not_None_eq)
  have b: "p_rc (head_rc (init_rc 0 :: int state_rc)) = None"
    "pc_rc (threads_rc (init_rc 0 :: int state_rc) 0) = Idle_rc"
    "outcomes_rc (threads_rc (init_rc 0 :: int state_rc) 0) = []"
    "external_cnt (head_rc (init_rc 0 :: int state_rc)) = 0"
    by (simp_all add: init_rc_def thread_init_rc_def)
  from pop_on_empty [OF a(1,2,4) b(1,2), of 2] a(3) b(3,4) show ?thesis
    by (simp add: numeral_2_eq_2) blast
qed

text \<open>
  The claim C5 as stated fails: \<open>MaxSize\<close> threads pop once each on the empty stack and
  each takes a slot; head is null, and the \<^verbatim>\<open>pop\<close> of one more thread throws.
\<close>

theorem pop_on_empty_throws:
  "map_option head_hp (seq_hp (map (\<lambda>j. (j, Pop)) [0..<MaxSize]) (init_hp 0 :: int state_hp))
     = Some None \<and>
   map_option (\<lambda>s. outcomes_hp (threads_hp s MaxSize))
     (seq_hp (map (\<lambda>j. (j, Pop)) [0..<MaxSize] @ [(MaxSize, Pop)]) (init_hp 0 :: int state_hp))
     = Some [Threw (runtime_error ''No hazard pointers available'')]"
proof -
  from claimed_upto_pops [of MaxSize 0] obtain s :: "int state_hp" where
    s: "seq_hp (map (\<lambda>j. (j, Pop)) [0..<MaxSize]) (init_hp 0) = Some s" "claimed_upto MaxSize s"
    by auto
  from s(2) have "pc_hp (threads_hp s MaxSize) = Idle_hp" "hazard_pointer (threads_hp s MaxSize) = None"
    "outcomes_hp (threads_hp s MaxSize) = []" "head_hp s = None"
    by (simp_all add: claimed_upto_def)
  with pop_hp_exhausted [OF this(1,2) claimed_upto_full [OF s(2)]] s(1)
  show ?thesis by (simp add: seq_hp_append)
qed

text \<open>
  C6 (as the code has it). In a state that the threads reached by any interleaving and in
  which no call is running, the destructor of the split-reference-count stack pops until
  \<^verbatim>\<open>pop\<close> returns null: it returns, the pointer of head is null, every node of the stack
  has been deleted, in the order of the stack and each once, the free store got their
  cells back, and no node is live any more. (A run has fewer than \<open>2\<^sup>3\<^sup>2 - 1\<close> events, so
  that no 32-bit counter has wrapped.) The hazard-pointer stack has no destructor of its
  own: destroying it leaves head, the nodes, the list of deferred deletions and the free
  store as they are.
\<close>

theorem destructor_drains:
  assumes "r = exec_rc es (init_rc cells)" and "length es < 4294967295"
    and "\<forall>j. pc_rc (threads_rc r j) = Idle_rc"
    and "stack_rc (nodes_rc r) (head_rc r) xs"
    and "pc_hp (threads_hp s i) = Idle_hp"
  shows
    "(\<exists>r'. do_rc i Destroy r = Some r' \<and> p_rc (head_rc r') = None \<and>
        freed (heap_rc r') = freed (heap_rc r) @ map fst xs \<and>
        distinct (freed (heap_rc r')) \<and>
        capacity (heap_rc r') = capacity (heap_rc r) + length xs \<and>
        (\<forall>a. nodes_rc r' a = None) \<and>
        outcomes_rc (threads_rc r' i) = outcomes_rc (threads_rc r i) @ [Returned_void]) \<and>
     (\<exists>s'. do_hp i Destroy s = Some s' \<and> head_hp s' = head_hp s \<and> nodes_hp s' = nodes_hp s \<and>
        to_delete_list s' = to_delete_list s \<and> heap_hp s' = heap_hp s \<and>
        outcomes_hp (threads_hp s' i) = outcomes_hp (threads_hp s i) @ [Returned_void])"
proof -
  have inv: "inv_rc (length es) r" unfolding assms(1) by (rule reachable_inv_rc [OF assms(2)])
  from inv_rc_quiescent_counts [OF inv assms(3)] obtain as where
    as: "distinct as" "linked_rc (\<lambda>a e n. e + inner_cnt n = 1) (nodes_rc r) (head_rc r) as"
      "\<forall>a. nodes_rc r a \<noteq> None \<longrightarrow> a \<in> set as"
      "set as \<inter> set (freed (heap_rc r)) = {}" "distinct (freed (heap_rc r))"
    by blast
  from stack_rc_linked [OF assms(4) as(2)] have xs: "as = map fst xs"
    and l: "linked_rc (\<lambda>a e n. e + inner_cnt n = 1 \<and> v_rc n \<noteq> None) (nodes_rc r) (head_rc r) as"
    by blast+
  from assms(3) have "pc_rc (threads_rc r i) = Idle_rc" by simp
  from destroy_rc [OF l as(1) this] obtain r' where
    r': "do_rc i Destroy r = Some r'" "p_rc (head_rc r') = None"
      "outcomes_rc (threads_rc r' i) = outcomes_rc (threads_rc r i) @ [Returned_void]"
      "freed (heap_rc r') = freed (heap_rc r) @ as"
      "capacity (heap_rc r') = capacity (heap_rc r) + length as"
      "nodes_rc r' = (\<lambda>a. if a \<in> set as then None else nodes_rc r a)"
    by blast
  from as(3) r'(6) have n: "\<forall>a. nodes_rc r' a = None" by auto
  from as(1,4,5) r'(4) have d: "distinct (freed (heap_rc r'))" by auto
  from r' n d xs
  have "\<exists>r'. do_rc i Destroy r = Some r' \<and> p_rc (head_rc r') = None \<and>
        freed (heap_rc r') = freed (heap_rc r) @ map fst xs \<and>
        distinct (freed (heap_rc r')) \<and>
        capacity (heap_rc r') = capacity (heap_rc r) + length xs \<and>
        (\<forall>a. nodes_rc r' a = None) \<and>
        outcomes_rc (threads_rc r' i) = outcomes_rc (threads_rc r i) @ [Returned_void]"
    by simp
  with destroy_hp [OF assms(5)] show ?thesis by simp
qed

theorem destructor_drains_witness:
  "nodes_rc (exec_rc [Call 0 (Push (1::int)), Step 0, Step 0, Step 0,
        Call 0 (Push 2), Step 0, Step 0, Step 0, Call 0 (Push 3), Step 0, Step 0, Step 0]
        (init_rc 3)) 2 =
      Some \<lparr>v_rc = Some 3, inner_cnt = 0, next_rc = \<lparr>external_cnt = 1, p_rc = Some 1\<rparr>\<rparr> \<and>
   freed (heap_rc (exec_rc [Call 0 (Push (1::int)), Step 0, Step 0, Step 0,
        Call 0 (Push 2), Step 0, Step 0, Step 0, Call 0 (Push 3), Step 0, Step 0, Step 0]
        (init_rc 3))) = [] \<and>
   (\<exists>r'. do_rc 1 Destroy (exec_rc [Call 0 (Push (1::int)), Step 0, Step 0, Step 0,
        Call 0 (Push 2), Step 0, Step 0, Step 0, Call 0 (Push 3), Step 0, Step 0, Step 0]
        (init_rc 3)) = Some r' \<and>
      p_rc (head_rc r') = None \<and> freed (heap_rc r') = [2, 1, 0] \<and>
      capacity (heap_rc r') = 3 \<and> (\<forall>a. nodes_rc r' a = None) \<and>
      outcomes_rc (threads_rc r' 1) = [Returned_void]) \<and>
   (\<exists>s'. do_hp 1 Destroy (exec_hp [Call 0 (Push (1::int)), Step 0, Step 0, Step 0]
        (init_hp 1)) = Some s' \<and>
      head_hp s' = Some 0 \<and> outcomes_hp (threads_hp s' 1) = [Returned_void])"
proof -
  let ?es = "[Call 0 (Push (1::int)), Step 0, Step 0, Step 0,
        Call 0 (Push 2), Step 0, Step 0, Step 0, Call 0 (Push 3), Step 0, Step 0, Step 0]"
  let ?r = "exec_rc ?es (init_rc 3)"
  let ?s = "exec_hp [Call 0 (Push (1::int)), Step 0, Step 0, Step 0] (init_hp 1)"
  have a: "stack_rc (nodes_rc ?r) (head_rc ?r) [(2, 3), (1, 2), (0, 1)]"
    "pc_rc (threads_rc ?r 0) = Idle_rc" "outcomes_rc (threads_rc ?r 1) = []"
    "freed (heap_rc ?r) = []" "capacity (heap_rc ?r) = 0"
    "nodes_rc ?r 2 =
      Some \<lparr>v_rc = Some 3, inner_cnt = 0, next_rc = \<lparr>external_cnt = 1, p_rc = Some 1\<rparr>\<rparr>"
    by code_simp+
  have idle: "\<forall>j. pc_rc (threads_rc ?r j) = Idle_rc"
  proof
    fix j
    show "pc_rc (threads_rc ?r j) = Idle_rc"
    proof (cases "j = 0")
      case True
      with a(2) show ?thesis by simp
    next
      case False
      then have "threads_rc ?r j = threads_rc (init_rc 3) j"
        by (intro exec_rc_others) auto
      then show ?thesis by (simp add: init_rc_def thread_init_rc_def)
    qed
  qed
  have len: "length ?es < 4294967295" by simp
  have b: "pc_hp (threads_hp ?s 1) = Idle_hp" "head_hp ?s = Some 0"
    "outcomes_hp (threads_hp ?s 1) = []"
    by code_simp+
  from destructor_drains [OF refl len idle a(1) b(1)] a(3,4,5,6) b(2,3) show ?thesis by auto
qed

text \<open>
  The claim C6 as stated fails for the hazard-pointer stack: after \<^verbatim>\<open>push(1)\<close> and the
  destruction of the stack, head still points to the node, which is live and not freed.
\<close>

theorem hazard_stack_not_drained:
  "map_option (\<lambda>s. (outcomes_hp (threads_hp s 0), head_hp s, nodes_hp s 0, freed (heap_hp s)))
     (seq_hp [(0, Push (1::int)), (0, Destroy)] (init_hp 1))
     = Some ([Returned_void, Returned_void], Some 0,
             Some \<lparr>v_hp = Some 1, next_hp = None\<rparr>, [])"
  by code_simp

text \<open>
  C7 (as the code has it). When every slot has an owner and the calling thread holds no
  slot, its \<^verbatim>\<open>pop\<close> throws \<^verbatim>\<open>std::runtime_error("No hazard pointers available")\<close>; the
  thread gets no slot and the shared state is unchanged. The number of slots is the
  constant \<open>MaxSize = 100\<close>.
\<close>

theorem slot_exhaustion:
  assumes "pc_hp (threads_hp s i) = Idle_hp" and "hazard_pointer (threads_hp s i) = None"
    and "list_all (\<lambda>x. id_hp x \<noteq> None) (HazardPointers s)"
  shows "MaxSize = 100 \<and>
    (\<exists>s'. do_hp i Pop s = Some s' \<and>
       outcomes_hp (threads_hp s' i) =
         outcomes_hp (threads_hp s i) @ [Threw (runtime_error ''No hazard pointers available'')] \<and>
       pc_hp (threads_hp s' i) = Idle_hp \<and> hazard_pointer (threads_hp s' i) = None \<and>
       HazardPointers s' = HazardPointers s \<and> head_hp s' = head_hp s \<and>
       nodes_hp s' = nodes_hp s \<and> to_delete_list s' = to_delete_list s \<and>
       heap_hp s' = heap_hp s)"
  using pop_hp_exhausted [OF assms] assms(2) by (simp add: MaxSize_def)

theorem slot_exhaustion_witness:
  "\<exists>s. seq_hp (map (\<lambda>j. (j, Pop)) [0..<MaxSize]) (init_hp 0 :: int state_hp) = Some s \<and>
       list_all (\<lambda>x. id_hp x \<noteq> None) (HazardPointers s) \<and>
       hazard_pointer (threads_hp s MaxSize) = None \<and>
       (\<exists>s'. do_hp MaxSize Pop s = Some s' \<and>
          outcomes_hp (threads_hp s' MaxSize) =
            [Threw (runtime_error ''No hazard pointers available'')] \<and>
          hazard_pointer (threads_hp s' MaxSize) = None \<and> HazardPointers s' = HazardPointers s)"
proof -
  from claimed_upto_pops [of MaxSize 0] obtain s :: "int state_hp" where
    s: "seq_hp (map (\<lambda>j. (j, Pop)) [0..<MaxSize]) (init_hp 0) = Some s" "claimed_upto MaxSize s"
    by auto
  from s(2) have t: "pc_hp (threads_hp s MaxSize) = Idle_hp"
    "hazard_pointer (threads_hp s MaxSize) = None" "outcomes_hp (threads_hp s MaxSize) = []"
    by (simp_all add: claimed_upto_def)
  from slot_exhaustion [OF t(1,2) claimed_upto_full [OF s(2)]] s(1) t(2,3)
    claimed_upto_full [OF s(2)]
  show ?thesis by auto
qed

text \<open>
  The claim C7 as stated fails: the exhaustion is found in the middle of a run. After
  \<open>MaxSize\<close> threads have taken the slots, one more thread pushes a value, which works,
  and only its first \<^verbatim>\<open>pop\<close> throws.
\<close>

theorem exhaustion_found_mid_run:
  "map_option (\<lambda>s. outcomes_hp (threads_hp s MaxSize))
     (seq_hp (map (\<lambda>j. (j, Pop)) [0..<MaxSize] @ [(MaxSize, Push 7), (MaxSize, Pop)])
        (init_hp 1 :: int state_hp))
     = Some [Returned_void, Threw (runtime_error ''No hazard pointers available'')]"
proof -
  from claimed_upto_pops [of MaxSize 1] obtain s :: "int state_hp" where
    s: "seq_hp (map (\<lambda>j. (j, Pop)) [0..<MaxSize]) (init_hp 1) = Some s" "claimed_upto MaxSize s"
      "heap_hp s = \<lparr>next_addr = 0, capacity = 1, freed = []\<rparr>"
    by auto
  from s(2) have t: "pc_hp (threads_hp s MaxSize) = Idle_hp"
    "hazard_pointer (threads_hp s MaxSize) = None" "outcomes_hp (threads_hp s MaxSize) = []"
    by (simp_all add: claimed_upto_def)
  from push_hp_seq [OF t(1), of 7] s(3) t obtain s1 where
    s1: "do_hp MaxSize (Push 7) s = Some s1" "HazardPointers s1 = HazardPointers s"
      "pc_hp (threads_hp s1 MaxSize) = Idle_hp" "hazard_pointer (threads_hp s1 MaxSize) = None"
      "outcomes_hp (threads_hp s1 MaxSize) = [Returned_void]"
    by auto
  from claimed_upto_full [OF s(2)] s1(2)
  have "list_all (\<lambda>x. id_hp x \<noteq> None) (HazardPointers s1)" by simp
  from pop_hp_exhausted [OF s1(3,4) this] s(1) s1(1,5) show ?thesis
    by (simp add: seq_hp_append)
qed

text \<open>
  C8. A \<^verbatim>\<open>push\<close> that runs alone either throws \<^verbatim>\<open>std::bad_alloc\<close> from line 67 (line 106
  in the split-reference-count stack) and leaves head, the nodes and the free store as
  they were, or returns with the new node as head, holding the value and pointing to the
  old head.
\<close>

theorem push_all_or_nothing:
  assumes "pc_hp (threads_hp s i) = Idle_hp" and "pc_rc (threads_rc r i) = Idle_rc"
  shows
    "(\<exists>s'. do_hp i (Push x) s = Some s' \<and>
        HazardPointers s' = HazardPointers s \<and> to_delete_list s' = to_delete_list s \<and>
        (if capacity (heap_hp s) = 0
         then outcomes_hp (threads_hp s' i) = outcomes_hp (threads_hp s i) @ [Threw bad_alloc] \<and>
              head_hp s' = head_hp s \<and> nodes_hp s' = nodes_hp s \<and> heap_hp s' = heap_hp s
         else outcomes_hp (threads_hp s' i) = outcomes_hp (threads_hp s i) @ [Returned_void] \<and>
              head_hp s' = Some (next_addr (heap_hp s)) \<and>
              nodes_hp s' = (nodes_hp s)(next_addr (heap_hp s) \<mapsto>
                               \<lparr>v_hp = Some x, next_hp = head_hp s\<rparr>))) \<and>
     (\<exists>r'. do_rc i (Push x) r = Some r' \<and>
        (if capacity (heap_rc r) = 0
         then outcomes_rc (threads_rc r' i) = outcomes_rc (threads_rc r i) @ [Threw bad_alloc] \<and>
              head_rc r' = head_rc r \<and> nodes_rc r' = nodes_rc r \<and> heap_rc r' = heap_rc r
         else outcomes_rc (threads_rc r' i) = outcomes_rc (threads_rc r i) @ [Returned_void] \<and>
              head_rc r' = \<lparr>external_cnt = 1, p_rc = Some (next_addr (heap_rc r))\<rparr> \<and>
              nodes_rc r' = (nodes_rc r)(next_addr (heap_rc r) \<mapsto>
                               \<lparr>v_rc = Some x, inner_cnt = 0, next_rc = head_rc r\<rparr>)))"
proof -
  from push_hp_seq [OF assms(1), of x] obtain s' where
    "do_hp i (Push x) s = Some s'"
    "HazardPointers s' = HazardPointers s" "to_delete_list s' = to_delete_list s"
    "if capacity (heap_hp s) = 0
         then outcomes_hp (threads_hp s' i) = outcomes_hp (threads_hp s i) @ [Threw bad_alloc] \<and>
              head_hp s' = head_hp s \<and> nodes_hp s' = nodes_hp s \<and> heap_hp s' = heap_hp s
         else outcomes_hp (threads_hp s' i) = outcomes_hp (threads_hp s i) @ [Returned_void] \<and>
              head_hp s' = Some (next_addr (heap_hp s)) \<and>
              nodes_hp s' = (nodes_hp s)(next_addr (heap_hp s) \<mapsto>
                               \<lparr>v_hp = Some x, next_hp = head_hp s\<rparr>)"
    by blast
  with push_rc_seq [OF assms(2), of x] show ?thesis by blast
qed

theorem push_all_or_nothing_witness:
  "(\<exists>s'. do_hp 0 (Push (5::int)) (init_hp 0) = Some s' \<and>
      outcomes_hp (threads_hp s' 0) = [Threw bad_alloc] \<and> head_hp s' = None \<and>
      nodes_hp s' = Map.empty \<and> to_delete_list s' = []) \<and>
   (\<exists>s'. do_hp 0 (Push (5::int)) (init_hp 1) = Some s' \<and>
      outcomes_hp (threads_hp s' 0) = [Returned_void] \<and> head_hp s' = Some 0 \<and>
      nodes_hp s' 0 = Some \<lparr>v_hp = Some 5, next_hp = None\<rparr>) \<and>
   (\<exists>r'. do_rc 0 (Push (5::int)) (init_rc 0) = Some r' \<and>
      outcomes_rc (threads_rc r' 0) = [Threw bad_alloc] \<and>
      head_rc r' = \<lparr>external_cnt = 0, p_rc = None\<rparr> \<and> nodes_rc r' = Map.empty) \<and>
   (\<exists>r'. do_rc 0 (Push (5::int)) (init_rc 1) = Some r' \<and>
      outcomes_rc (threads_rc r' 0) = [Returned_void] \<and>
      head_rc r' = \<lparr>external_cnt = 1, p_rc = Some 0\<rparr> \<and>
      nodes_rc r' 0 = Some \<lparr>v_rc = Some 5, inner_cnt = 0,
                            next_rc = \<lparr>external_cnt = 0, p_rc = None\<rparr>\<rparr>)"
proof -
  have h: "pc_hp (threads_hp (init_hp c :: int state_hp) 0) = Idle_hp"
    "outcomes_hp (threads_hp (init_hp c :: int state_hp) 0) = []"
    "head_hp (init_hp c :: int state_hp) = None" "nodes_hp (init_hp c :: int state_hp) = Map.empty"
    "to_delete_list (init_hp c :: int state_hp) = []"
    "capacity (heap_hp (init_hp c :: int state_hp)) = c"
    "next_addr (heap_hp (init_hp c :: int state_hp)) = 0" for c
    by (simp_all add: init_hp_def thread_init_hp_def)
  have r: "pc_rc (threads_rc (init_rc c :: int state_rc) 0) = Idle_rc"
    "outcomes_rc (threads_rc (init_rc c :: int state_rc) 0) = []"
    "head_rc (init_rc c :: int state_rc) = \<lparr>external_cnt = 0, p_rc = None\<rparr>"
    "nodes_rc (init_rc c :: int state_rc) = Map.empty"
    "capacity (heap_rc (init_rc c :: int state_rc)) = c"
    "next_addr (heap_rc (init_rc c :: int state_rc)) = 0" for c
    by (simp_all add: init_rc_def thread_init_rc_def)
  from push_all_or_nothing [where s = "init_hp 0 :: int state_hp" and i = 0
      and r = "init_rc 0 :: int state_rc" and x = 5]
  have 0: "(\<exists>s'. do_hp 0 (Push (5::int)) (init_hp 0) = Some s' \<and>
      outcomes_hp (threads_hp s' 0) = [Threw bad_alloc] \<and> head_hp s' = None \<and>
      nodes_hp s' = Map.empty \<and> to_delete_list s' = []) \<and>
    (\<exists>r'. do_rc 0 (Push (5::int)) (init_rc 0) = Some r' \<and>
      outcomes_rc (threads_rc r' 0) = [Threw bad_alloc] \<and>
      head_rc r' = \<lparr>external_cnt = 0, p_rc = None\<rparr> \<and> nodes_rc r' = Map.empty)"
    by (auto simp: h r)
  from push_all_or_nothing [where s = "init_hp 1 :: int state_hp" and i = 0
      and r = "init_rc 1 :: int state_rc" and x = 5]
  have 1: "(\<exists>s'. do_hp 0 (Push (5::int)) (init_hp 1) = Some s' \<and>
      outcomes_hp (threads_hp s' 0) = [Returned_void] \<and> head_hp s' = Some 0 \<and>
      nodes_hp s' 0 = Some \<lparr>v_hp = Some 5, next_hp = None\<rparr>) \<and>
    (\<exists>r'. do_rc 0 (Push (5::int)) (init_rc 1) = Some r' \<and>
      outcomes_rc (threads_rc r' 0) = [Returned_void] \<and>
      head_rc r' = \<lparr>external_cnt = 1, p_rc = Some 0\<rparr> \<and>
      nodes_rc r' 0 = Some \<lparr>v_rc = Some 5, inner_cnt = 0,
                            next_rc = \<lparr>external_cnt = 0, p_rc = None\<rparr>\<rparr>)"
    by (auto simp: h r)
  from 0 1 show ?thesis by blast
qed

text \<open>
  C2 (as the code has it). The counters are 32-bit, so the claim holds for the runs in
  which none of them can have wrapped. In every state \<open>s\<close> that the threads reach by any
  interleaving of fewer than \<open>2\<^sup>3\<^sup>2 - 1\<close> calls and steps:
  \<^item> no node has been deleted twice, and no thread has used a deleted node;
  \<^item> when no call is running, the nodes allocated so far are the nodes linked from head
    and the deleted ones, and no node is both: every node that has left the stack has
    been deleted, once;
  \<^item> a thread at line 125, after its successful exchange, finds its node \<open>p\<close> live; the
    prior inner count equals the negation of the addend \<^verbatim>\<open>external_cnt - 2\<close> exactly when
    the sum of the two is zero; in that case the step deletes \<open>p\<close>, otherwise it deletes
    nothing and leaves the sum in the inner count;
  \<^item> a thread at line 136, after its failed exchange, finds its node \<open>p\<close> live; the step
    takes one from the inner count, and it deletes \<open>p\<close> exactly when the result is zero.
\<close>

theorem split_count_deletes_once:
  assumes "length es < 4294967295" and "s = exec_rc es (init_rc cells)"
  shows
    "distinct (freed (heap_rc s)) \<and>
     (\<forall>j. pc_rc (threads_rc s j) \<noteq> UB_rc) \<and>
     ((\<forall>j. pc_rc (threads_rc s j) = Idle_rc) \<longrightarrow>
        (\<exists>as. linked_rc (\<lambda>a e n. True) (nodes_rc s) (head_rc s) as \<and> distinct as \<and>
           set as \<inter> set (freed (heap_rc s)) = {} \<and>
           set as \<union> set (freed (heap_rc s)) = {..<next_addr (heap_rc s)})) \<and>
     (pc_rc (threads_rc s i) = pop_125 \<longrightarrow>
        (\<exists>a n. p_local_rc (threads_rc s i) = Some a \<and> nodes_rc s a = Some n \<and>
           a \<notin> set (freed (heap_rc s)) \<and>
           (inner_cnt n = - (external_cnt (t_rc (threads_rc s i)) - 2)) =
             (inner_cnt n + (external_cnt (t_rc (threads_rc s i)) - 2) = 0) \<and>
           (if inner_cnt n + (external_cnt (t_rc (threads_rc s i)) - 2) = 0
            then freed (heap_rc (step_rc i s)) = freed (heap_rc s) @ [a] \<and>
                 nodes_rc (step_rc i s) a = None
            else freed (heap_rc (step_rc i s)) = freed (heap_rc s) \<and>
                 (\<exists>n'. nodes_rc (step_rc i s) a = Some n' \<and>
                    inner_cnt n' =
                      inner_cnt n + (external_cnt (t_rc (threads_rc s i)) - 2))))) \<and>
     (pc_rc (threads_rc s i) = pop_136 \<longrightarrow>
        (\<exists>a n. p_local_rc (threads_rc s i) = Some a \<and> nodes_rc s a = Some n \<and>
           a \<notin> set (freed (heap_rc s)) \<and>
           (if inner_cnt n - 1 = 0
            then freed (heap_rc (step_rc i s)) = freed (heap_rc s) @ [a] \<and>
                 nodes_rc (step_rc i s) a = None
            else freed (heap_rc (step_rc i s)) = freed (heap_rc s) \<and>
                 (\<exists>n'. nodes_rc (step_rc i s) a = Some n' \<and>
                    inner_cnt n' = inner_cnt n - 1))))"
proof -
  have inv: "inv_rc (length es) s" unfolding assms(2) by (rule reachable_inv_rc [OF assms(1)])
  then have 1: "distinct (freed (heap_rc s))" by (simp add: inv_rc_def rc_inv_def heap_ok_def)
  have 2: "pc_rc (threads_rc s j) \<noteq> UB_rc" for j
    using inv_rc_role [OF inv, of j] by (auto simp: roles_rc_def role_rc_def)
  note 3 = inv_rc_quiescent [OF inv]
  have 4: "\<exists>a n. p_local_rc (threads_rc s i) = Some a \<and> nodes_rc s a = Some n \<and>
           a \<notin> set (freed (heap_rc s)) \<and>
           (inner_cnt n = - (external_cnt (t_rc (threads_rc s i)) - 2)) =
             (inner_cnt n + (external_cnt (t_rc (threads_rc s i)) - 2) = 0) \<and>
           (if inner_cnt n + (external_cnt (t_rc (threads_rc s i)) - 2) = 0
            then freed (heap_rc (step_rc i s)) = freed (heap_rc s) @ [a] \<and>
                 nodes_rc (step_rc i s) a = None
            else freed (heap_rc (step_rc i s)) = freed (heap_rc s) \<and>
                 (\<exists>n'. nodes_rc (step_rc i s) a = Some n' \<and>
                    inner_cnt n' =
                      inner_cnt n + (external_cnt (t_rc (threads_rc s i)) - 2)))"
    if pc: "pc_rc (threads_rc s i) = pop_125"
  proof -
    from inv_rc_local_node [OF inv, of i] pc obtain a n where
      a: "p_local_rc (threads_rc s i) = Some a" "nodes_rc s a = Some n"
         "a \<notin> set (freed (heap_rc s))" by auto
    note eff = step_rc_pop_125_effect [OF pc a(1,2)]
    show ?thesis
      by (intro exI [of _ a] exI [of _ n] conjI a w_eq_neg) (simp add: eff)
  qed
  have 5: "\<exists>a n. p_local_rc (threads_rc s i) = Some a \<and> nodes_rc s a = Some n \<and>
           a \<notin> set (freed (heap_rc s)) \<and>
           (if inner_cnt n - 1 = 0
            then freed (heap_rc (step_rc i s)) = freed (heap_rc s) @ [a] \<and>
                 nodes_rc (step_rc i s) a = None
            else freed (heap_rc (step_rc i s)) = freed (heap_rc s) \<and>
                 (\<exists>n'. nodes_rc (step_rc i s) a = Some n' \<and>
                    inner_cnt n' = inner_cnt n - 1))"
    if pc: "pc_rc (threads_rc s i) = pop_136"
  proof -
    from inv_rc_local_node [OF inv, of i] pc obtain a n where
      a: "p_local_rc (threads_rc s i) = Some a" "nodes_rc s a = Some n"
         "a \<notin> set (freed (heap_rc s))" by auto
    note eff = step_rc_pop_136_effect [OF pc a(1,2)]
    show ?thesis
      by (intro exI [of _ a] exI [of _ n] conjI a) (simp add: eff)
  qed
  from 1 2 3 4 5 show ?thesis by blast
qed

theorem split_count_deletes_once_witness:
  "pc_rc (threads_rc (exec_rc [Call 0 (Push (7::int)), Step 0, Step 0, Step 0,
        Call 1 Pop, Step 1, Step 1, Call 2 Pop, Step 2, Step 2, Step 1, Step 2]
        (init_rc 1)) 2) = pop_125 \<and>
   freed (heap_rc (step_rc 2 (exec_rc [Call 0 (Push (7::int)), Step 0, Step 0, Step 0,
        Call 1 Pop, Step 1, Step 1, Call 2 Pop, Step 2, Step 2, Step 1, Step 2]
        (init_rc 1)))) = [] \<and>
   (\<exists>n'. nodes_rc (step_rc 2 (exec_rc [Call 0 (Push (7::int)), Step 0, Step 0, Step 0,
        Call 1 Pop, Step 1, Step 1, Call 2 Pop, Step 2, Step 2, Step 1, Step 2]
        (init_rc 1))) 0 = Some n' \<and> inner_cnt n' = 1) \<and>
   pc_rc (threads_rc (exec_rc [Call 0 (Push (7::int)), Step 0, Step 0, Step 0,
        Call 1 Pop, Step 1, Step 1, Call 2 Pop, Step 2, Step 2, Step 1, Step 2, Step 2]
        (init_rc 1)) 1) = pop_136 \<and>
   freed (heap_rc (step_rc 1 (exec_rc [Call 0 (Push (7::int)), Step 0, Step 0, Step 0,
        Call 1 Pop, Step 1, Step 1, Call 2 Pop, Step 2, Step 2, Step 1, Step 2, Step 2]
        (init_rc 1)))) = [0] \<and>
   nodes_rc (step_rc 1 (exec_rc [Call 0 (Push (7::int)), Step 0, Step 0, Step 0,
        Call 1 Pop, Step 1, Step 1, Call 2 Pop, Step 2, Step 2, Step 1, Step 2, Step 2]
        (init_rc 1))) 0 = None \<and>
   pc_rc (threads_rc (exec_rc [Call 0 (Push (7::int)), Step 0, Step 0, Step 0,
        Call 1 Pop, Step 1, Step 1, Call 2 Pop, Step 2, Step 2, Step 1, Step 2, Step 1]
        (init_rc 1)) 2) = pop_125 \<and>
   freed (heap_rc (step_rc 2 (exec_rc [Call 0 (Push (7::int)), Step 0, Step 0, Step 0,
        Call 1 Pop, Step 1, Step 1, Call 2 Pop, Step 2, Step 2, Step 1, Step 2, Step 1]
        (init_rc 1)))) = [0] \<and>
   nodes_rc (step_rc 2 (exec_rc [Call 0 (Push (7::int)), Step 0, Step 0, Step 0,
        Call 1 Pop, Step 1, Step 1, Call 2 Pop, Step 2, Step 2, Step 1, Step 2, Step 1]
        (init_rc 1))) 0 = None \<and>
   (\<forall>j. pc_rc (threads_rc (exec_rc [Call 0 (Push (7::int)), Step 0, Step 0, Step 0,
        Call 1 Pop, Step 1, Step 1, Call 2 Pop, Step 2, Step 2, Step 1, Step 2, Step 2,
        Step 1, Step 1, Step 1, Step 1] (init_rc 1)) j) = Idle_rc) \<and>
   freed (heap_rc (exec_rc [Call 0 (Push (7::int)), Step 0, Step 0, Step 0,
        Call 1 Pop, Step 1, Step 1, Call 2 Pop, Step 2, Step 2, Step 1, Step 2, Step 2,
        Step 1, Step 1, Step 1, Step 1] (init_rc 1))) = [0] \<and>
   (\<exists>as. linked_rc (\<lambda>a e n. True)
        (nodes_rc (exec_rc [Call 0 (Push (7::int)), Step 0, Step 0, Step 0,
          Call 1 Pop, Step 1, Step 1, Call 2 Pop, Step 2, Step 2, Step 1, Step 2, Step 2,
          Step 1, Step 1, Step 1, Step 1] (init_rc 1)))
        (head_rc (exec_rc [Call 0 (Push (7::int)), Step 0, Step 0, Step 0,
          Call 1 Pop, Step 1, Step 1, Call 2 Pop, Step 2, Step 2, Step 1, Step 2, Step 2,
          Step 1, Step 1, Step 1, Step 1] (init_rc 1))) as \<and>
      set as \<union> {0} = {..<1})"
proof -
  let ?eA = "[Call 0 (Push (7::int)), Step 0, Step 0, Step 0,
        Call 1 Pop, Step 1, Step 1, Call 2 Pop, Step 2, Step 2, Step 1, Step 2]"
  let ?eB = "[Call 0 (Push (7::int)), Step 0, Step 0, Step 0,
        Call 1 Pop, Step 1, Step 1, Call 2 Pop, Step 2, Step 2, Step 1, Step 2, Step 2]"
  let ?eC = "[Call 0 (Push (7::int)), Step 0, Step 0, Step 0,
        Call 1 Pop, Step 1, Step 1, Call 2 Pop, Step 2, Step 2, Step 1, Step 2, Step 1]"
  let ?eQ = "[Call 0 (Push (7::int)), Step 0, Step 0, Step 0,
        Call 1 Pop, Step 1, Step 1, Call 2 Pop, Step 2, Step 2, Step 1, Step 2, Step 2,
        Step 1, Step 1, Step 1, Step 1]"
  let ?A = "exec_rc ?eA (init_rc 1)"
  let ?B = "exec_rc ?eB (init_rc 1)"
  let ?C = "exec_rc ?eC (init_rc 1)"
  let ?Q = "exec_rc ?eQ (init_rc 1)"
  have a: "pc_rc (threads_rc ?A 2) = pop_125" "p_local_rc (threads_rc ?A 2) = Some 0"
    "nodes_rc ?A 0 =
       Some \<lparr>v_rc = Some 7, inner_cnt = 0, next_rc = \<lparr>external_cnt = 0, p_rc = None\<rparr>\<rparr>"
    "external_cnt (t_rc (threads_rc ?A 2)) = 3" "freed (heap_rc ?A) = []"
    by code_simp+
  have b: "pc_rc (threads_rc ?B 1) = pop_136" "p_local_rc (threads_rc ?B 1) = Some 0"
    "nodes_rc ?B 0 =
       Some \<lparr>v_rc = None, inner_cnt = 1, next_rc = \<lparr>external_cnt = 0, p_rc = None\<rparr>\<rparr>"
    "freed (heap_rc ?B) = []"
    by code_simp+
  have c: "pc_rc (threads_rc ?C 2) = pop_125" "p_local_rc (threads_rc ?C 2) = Some 0"
    "nodes_rc ?C 0 =
       Some \<lparr>v_rc = Some 7, inner_cnt = - 1, next_rc = \<lparr>external_cnt = 0, p_rc = None\<rparr>\<rparr>"
    "external_cnt (t_rc (threads_rc ?C 2)) = 3" "freed (heap_rc ?C) = []"
    by code_simp+
  have q: "pc_rc (threads_rc ?Q 0) = Idle_rc" "pc_rc (threads_rc ?Q 1) = Idle_rc"
    "pc_rc (threads_rc ?Q 2) = Idle_rc" "freed (heap_rc ?Q) = [0]"
    "next_addr (heap_rc ?Q) = 1"
    by code_simp+
  have idle: "\<forall>j. pc_rc (threads_rc ?Q j) = Idle_rc"
  proof
    fix j
    show "pc_rc (threads_rc ?Q j) = Idle_rc"
    proof (cases "j = 0 \<or> j = 1 \<or> j = 2")
      case True
      with q(1,2,3) show ?thesis by auto
    next
      case False
      then have "threads_rc ?Q j = threads_rc (init_rc 1) j"
        by (intro exec_rc_others) auto
      then show ?thesis by (simp add: init_rc_def thread_init_rc_def)
    qed
  qed
  have lA: "length ?eA < 4294967295" and lB: "length ?eB < 4294967295"
    and lC: "length ?eC < 4294967295" and lQ: "length ?eQ < 4294967295" by simp_all
  from split_count_deletes_once [where i = 2 and cells = 1 and es = ?eA, OF lA refl] a
  have 1: "freed (heap_rc (step_rc 2 ?A)) = [] \<and>
      (\<exists>n'. nodes_rc (step_rc 2 ?A) 0 = Some n' \<and> inner_cnt n' = 1)"
    by simp
  from split_count_deletes_once [where i = 1 and cells = 1 and es = ?eB, OF lB refl] b
  have 2: "freed (heap_rc (step_rc 1 ?B)) = [0] \<and> nodes_rc (step_rc 1 ?B) 0 = None"
    by simp
  from split_count_deletes_once [where i = 2 and cells = 1 and es = ?eC, OF lC refl] c
  have 3: "freed (heap_rc (step_rc 2 ?C)) = [0] \<and> nodes_rc (step_rc 2 ?C) 0 = None"
    by simp
  from split_count_deletes_once [where i = 0 and cells = 1 and es = ?eQ, OF lQ refl] idle q(4,5)
  have 4: "\<exists>as. linked_rc (\<lambda>a e n. True) (nodes_rc ?Q) (head_rc ?Q) as \<and> set as \<union> {0} = {..<1}"
    by auto
  from 1 2 3 4 a(1) b(1) c(1) idle q(4) show ?thesis by blast
qed

text \<open>
  The claim C2 as stated fails once the inner count has wrapped. Thread 0 pushes 7;
  threads 1 and 2 call \<^verbatim>\<open>pop\<close> and keep making each other's exchange of line 123 fail:
  one of them increases the external count, the other then fails at line 123 and takes
  one from the inner count at line 136. After \<open>2\<^sup>3\<^sup>2 - 1\<close> such rounds the inner count, as
  a 32-bit value, is 1, so the next \<^verbatim>\<open>fetch_sub\<close> of line 136 sees 1 and deletes the node,
  which is still the head of the stack and still held by the other thread; that thread
  then reads \<^verbatim>\<open>p->next\<close> of the deleted node at line 123.
\<close>

theorem inner_count_wraps:
  "nodes_rc (exec_rc ([Call 0 (Push (7::int)), Step 0, Step 0, Step 0,
        Call 1 Pop, Step 1, Step 1, Call 2 Pop, Step 2] @
      concat (replicate 2147483647 [Step 2, Step 1, Step 1, Step 1, Step 2, Step 2]) @
      [Step 2, Step 1, Step 1] @ [Step 1, Step 2, Step 2, Step 1]) (init_rc 1)) 0 = None \<and>
   p_rc (head_rc (exec_rc ([Call 0 (Push (7::int)), Step 0, Step 0, Step 0,
        Call 1 Pop, Step 1, Step 1, Call 2 Pop, Step 2] @
      concat (replicate 2147483647 [Step 2, Step 1, Step 1, Step 1, Step 2, Step 2]) @
      [Step 2, Step 1, Step 1] @ [Step 1, Step 2, Step 2, Step 1]) (init_rc 1))) = Some 0 \<and>
   freed (heap_rc (exec_rc ([Call 0 (Push (7::int)), Step 0, Step 0, Step 0,
        Call 1 Pop, Step 1, Step 1, Call 2 Pop, Step 2] @
      concat (replicate 2147483647 [Step 2, Step 1, Step 1, Step 1, Step 2, Step 2]) @
      [Step 2, Step 1, Step 1] @ [Step 1, Step 2, Step 2, Step 1]) (init_rc 1))) = [0] \<and>
   pc_rc (threads_rc (exec_rc ([Call 0 (Push (7::int)), Step 0, Step 0, Step 0,
        Call 1 Pop, Step 1, Step 1, Call 2 Pop, Step 2] @
      concat (replicate 2147483647 [Step 2, Step 1, Step 1, Step 1, Step 2, Step 2]) @
      [Step 2, Step 1, Step 1] @ [Step 1, Step 2, Step 2, Step 1]) (init_rc 1)) 1) = UB_rc"
proof -
  let ?p = "[Call 0 (Push (7::int)), Step 0, Step 0, Step 0,
        Call 1 Pop, Step 1, Step 1, Call 2 Pop, Step 2]"
  let ?d = "[Step 2, Step 1, Step 1, Step 1, Step 2, Step (2::nat)] :: int event list"
  let ?s0 = "exec_rc ?p (init_rc 1)"
  let ?s1 = "exec_rc (concat (replicate 2147483647 ?d)) ?s0"
  let ?s2 = "exec_rc [Step 2, Step 1, Step 1] ?s1"
  have 0: "contended_rc 1 2 0 ?s0" by code_simp
  have "contended_rc 1 2 (0 + 2 * 2147483647) ?s1"
    by (rule contended_rounds [OF 0]) simp
  then have 1: "contended_rc 1 2 4294967294 ?s1" by simp
  have "contended_rc 2 1 (Suc 4294967294) ?s2"
    by (rule contended_round [OF 1 _ w_of_nat_not_minus_1]) simp_all
  then have 2: "contended_rc 2 1 4294967295 ?s2" by simp
  have 3: "(2::nat) \<noteq> 1" by simp
  note w = contended_wrap [OF 2 3 w_of_nat_minus_1]
  have e: "exec_rc (?p @ concat (replicate 2147483647 ?d) @ [Step 2, Step 1, Step 1] @
      [Step 1, Step 2, Step 2, Step 1]) (init_rc 1) =
      exec_rc [Step 1, Step 2, Step 2, Step 1] ?s2"
    by (simp only: exec_rc_append)
  show ?thesis unfolding e by (rule w)
qed

end
